theory Spec2Isabelle
  imports
    Complex_Main
    "HOL-Library.AList"
    "HOL-Library.Char_ord"
    "HOL-Library.List_Lexorder"
    "HOL-Library.Log_Nat"
begin

section \<open>Network path analysis: the data model\<close>

text \<open>
  The development embeds \<^verbatim>\<open>src/network_path_analysis.py\<close>.  Python values are
  modelled as follows.
  \<^item> \<^verbatim>\<open>str\<close> is \<^typ>\<open>string\<close>.  Identifiers are compared for equality everywhere;
    only the sort key of the matrices looks into them, and it is modelled on ASCII
    identifiers (\<open>ascii_id\<close> below), which every statement about the matrices assumes.
  \<^item> \<^verbatim>\<open>float\<close> is modelled twice.  The search and the tables carry link lengths as
    \<^typ>\<open>real\<close>, in exact arithmetic.  The distance of a path is also given in
    double-precision arithmetic (\<open>double\<close> below), with rounding, infinities and NaN,
    and the statement about its value is made there.
  \<^item> a \<^verbatim>\<open>dict\<close> is an association list in insertion order; \<^verbatim>\<open>d[k] = v\<close> is
    \<^const>\<open>AList.update\<close> (an existing key keeps its position, a new key goes to the
    end), \<^verbatim>\<open>d[k]\<close> is \<^const>\<open>map_of\<close> with \<open>None\<close> read as \<^verbatim>\<open>KeyError\<close>.
  \<^item> an exception is a value \<open>Inl e\<close> of the result type \<open>py_error + 'a\<close>.
\<close>

datatype py_error = KeyError | IndexError

type_synonym ('k, 'v) dict = "('k \<times> 'v) list"

definition keys :: "('k, 'v) dict \<Rightarrow> 'k list" where
  "keys d = map fst d"

definition dict_values :: "('k, 'v) dict \<Rightarrow> 'v list" where
  "dict_values d = map snd d"

record 'l NetworkLink =
  id_link :: string
  start_node :: string
  end_node :: string
  length_link :: 'l

type_synonym links_dict = "(string, real NetworkLink) dict"

subsection \<open>Distance of a path\<close>

text \<open>
  \<^verbatim>\<open>self.links[link].length for link in path\<close>: the lengths of the links of a path, in
  order; the first identifier that is not a key of \<^verbatim>\<open>self.links\<close> raises
  \<^verbatim>\<open>KeyError\<close>.
\<close>

fun link_lengths :: "(string, 'l NetworkLink) dict \<Rightarrow> string list \<Rightarrow> py_error + 'l list" where
  "link_lengths ls [] = Inr []"
| "link_lengths ls (l # path) =
     (case map_of ls l of
        None \<Rightarrow> Inl KeyError
      | Some d \<Rightarrow>
          (case link_lengths ls path of
             Inl e \<Rightarrow> Inl e
           | Inr lens \<Rightarrow> Inr (length_link d # lens)))"

text \<open>
  \<^verbatim>\<open>compute_path_distance\<close>: the empty path gives \<open>0.0\<close>; otherwise the sum of the
  lengths, minus the sum of the halves of the first and of the last length.  Here the
  lengths are real numbers and the arithmetic is exact; the double-precision version
  follows below.
\<close>

definition compute_path_distance :: "links_dict \<Rightarrow> string list \<Rightarrow> py_error + real" where
  "compute_path_distance ls path =
     (if path = [] then Inr 0
      else
        (case link_lengths ls path of
           Inl e \<Rightarrow> Inl e
         | Inr lens \<Rightarrow> Inr (sum_list lens - (hd lens / 2 + last lens / 2))))"

text \<open>The length of a loaded link, for stating results.\<close>

definition length_of :: "links_dict \<Rightarrow> string \<Rightarrow> real" where
  "length_of ls l = (case map_of ls l of None \<Rightarrow> 0 | Some d \<Rightarrow> length_link d)"

subsection \<open>Distance of a path in double precision\<close>

text \<open>
  A Python \<^verbatim>\<open>float\<close> is an IEEE 754 binary64 number.  Every finite double is an
  integer multiple of \<open>2^-1074\<close>, the smallest positive double (\<^verbatim>\<open>5e-324\<close>):
  \<open>Finite m\<close> is the double of value \<open>m * 2^-1074\<close>.  The zeros \<^verbatim>\<open>0.0\<close> and \<^verbatim>\<open>-0.0\<close>
  are equal under \<^verbatim>\<open>==\<close> and are not told apart by the operations used here: both are
  \<open>Finite 0\<close>.
\<close>

datatype double = Finite int | PosInf | NegInf | NaN

text \<open>
  The integers \<open>m\<close> for which \<open>m * 2^-1074\<close> is a double.  The significand has 53 bits:
  every \<open>m\<close> of magnitude below \<open>2^53\<close> is one (the subnormal numbers and the first
  binade of the normal ones), and from there on the multiples of \<open>2^e\<close> of magnitude
  from \<open>2^(52+e)\<close> up to \<open>2^(53+e)\<close>, where \<open>bitlen\<close> is the number of bits of a
  positive integer; the largest double is \<open>(2^53 - 1) * 2^2045\<close> of these units, just
  below \<open>2^2098\<close> (in value, \<open>2^1024\<close>).
\<close>

definition is_double :: "int \<Rightarrow> bool" where
  "is_double m \<longleftrightarrow>
     \<bar>m\<bar> < 2 ^ 2098 \<and> (\<bar>m\<bar> < 2 ^ 53 \<or> 2 ^ nat (bitlen \<bar>m\<bar> - 53) dvd m)"

text \<open>
  Rounding to the nearest, ties to the even neighbour: \<open>round_half_even n d\<close> is the
  integer nearest to \<open>n / d\<close> for \<open>0 < d\<close>, and \<open>round_units n\<close> is the double nearest to
  \<open>n * 2^-1074\<close>; a result of magnitude \<open>2^1024\<close> or more is an infinity.
\<close>

definition round_half_even :: "int \<Rightarrow> int \<Rightarrow> int" where
  "round_half_even n d =
     (let q = n div d; r = n mod d
      in if 2 * r < d then q
         else if d < 2 * r then q + 1
         else if even q then q else q + 1)"

definition round_units :: "int \<Rightarrow> double" where
  "round_units n =
     (if \<bar>n\<bar> < 2 ^ 53 then Finite n
      else
        (let e = nat (bitlen \<bar>n\<bar> - 53);
             m = round_half_even n (2 ^ e) * 2 ^ e
         in if 2 ^ 2098 \<le> \<bar>m\<bar> then (if 0 < n then PosInf else NegInf)
            else Finite m))"

text \<open>
  The operations \<^verbatim>\<open>x + y\<close>, \<^verbatim>\<open>x - y\<close> and \<^verbatim>\<open>x / 2\<close> on floats: the exact result,
  rounded.  No operation raises an exception.
\<close>

fun fadd :: "double \<Rightarrow> double \<Rightarrow> double" where
  "fadd (Finite a) (Finite b) = round_units (a + b)"
| "fadd (Finite a) PosInf = PosInf"
| "fadd (Finite a) NegInf = NegInf"
| "fadd PosInf (Finite b) = PosInf"
| "fadd PosInf PosInf = PosInf"
| "fadd PosInf NegInf = NaN"
| "fadd NegInf (Finite b) = NegInf"
| "fadd NegInf PosInf = NaN"
| "fadd NegInf NegInf = NegInf"
| "fadd NaN y = NaN"
| "fadd x NaN = NaN"

fun fneg :: "double \<Rightarrow> double" where
  "fneg (Finite a) = Finite (- a)"
| "fneg PosInf = NegInf"
| "fneg NegInf = PosInf"
| "fneg NaN = NaN"

definition fsub :: "double \<Rightarrow> double \<Rightarrow> double" where
  "fsub x y = fadd x (fneg y)"

fun fhalf :: "double \<Rightarrow> double" where
  "fhalf (Finite a) = Finite (round_half_even a 2)"
| "fhalf PosInf = PosInf"
| "fhalf NegInf = NegInf"
| "fhalf NaN = NaN"

text \<open>
  \<^verbatim>\<open>compute_path_distance\<close> on links whose lengths are doubles.  The built-in
  \<^verbatim>\<open>sum\<close> is not part of the repository, and how it adds floats depends on the
  interpreter (from left to right up to Python 3.11, with a compensation term from
  3.12 on): it is the parameter \<open>py_sum\<close>.
\<close>

type_synonym double_links = "(string, double NetworkLink) dict"

definition compute_path_distance_double ::
  "(double list \<Rightarrow> double) \<Rightarrow> double_links \<Rightarrow> string list \<Rightarrow> py_error + double" where
  "compute_path_distance_double py_sum ls path =
     (if path = [] then Inr (Finite 0)
      else
        (case link_lengths ls path of
           Inl e \<Rightarrow> Inl e
         | Inr lens \<Rightarrow>
             Inr (fsub (py_sum lens) (fadd (fhalf (hd lens)) (fhalf (last lens))))))"

text \<open>
  The sum from left to right, starting at the integer 0.  On a list of one float, and
  on a list whose partial sums are all exact, the compensation term of the later
  interpreters is 0 and they return the same double.
\<close>

definition sum_left :: "double list \<Rightarrow> double" where
  "sum_left lens = foldl fadd (Finite 0) lens"

text \<open>
  The double of a natural number below \<open>2^53\<close>, the length of a loaded link as a
  double, the chain of three links with lengths 10, 20 and 30, and a link of length
  \<^verbatim>\<open>5e-324\<close>.
\<close>

definition double_of_nat :: "nat \<Rightarrow> double" where
  "double_of_nat k = Finite (int k * 2 ^ 1074)"

definition double_length_of :: "double_links \<Rightarrow> string \<Rightarrow> double" where
  "double_length_of ls l = (case map_of ls l of None \<Rightarrow> Finite 0 | Some d \<Rightarrow> length_link d)"

definition chain_links_double :: double_links where
  "chain_links_double =
     [(''A'', \<lparr>id_link = ''A'', start_node = ''n1'', end_node = ''n2'',
               length_link = double_of_nat 10\<rparr>),
      (''B'', \<lparr>id_link = ''B'', start_node = ''n2'', end_node = ''n3'',
               length_link = double_of_nat 20\<rparr>),
      (''C'', \<lparr>id_link = ''C'', start_node = ''n3'', end_node = ''n4'',
               length_link = double_of_nat 30\<rparr>)]"

definition tiny_link :: double_links where
  "tiny_link =
     [(''X'', \<lparr>id_link = ''X'', start_node = ''n1'', end_node = ''n2'',
               length_link = Finite 1\<rparr>)]"

definition chain_links :: links_dict where
  "chain_links =
     [(''A'', \<lparr>id_link = ''A'', start_node = ''n1'', end_node = ''n2'', length_link = 10\<rparr>),
      (''B'', \<lparr>id_link = ''B'', start_node = ''n2'', end_node = ''n3'', length_link = 20\<rparr>),
      (''C'', \<lparr>id_link = ''C'', start_node = ''n3'', end_node = ''n4'', length_link = 30\<rparr>)]"


subsection \<open>The analyzer and the loading of a network\<close>

text \<open>
  The fields of \<^verbatim>\<open>NetworkAnalyzer\<close> that the analysis reads and writes.  A path is a
  list of link identifiers; \<^verbatim>\<open>self.paths\<close> and \<^verbatim>\<open>self.distances\<close> are keyed by
  ordered pairs of link identifiers.
\<close>

type_synonym pathset = "(string \<times> string, string list list) dict"

type_synonym distance_table = "(string \<times> string, real) dict"

record analyzer =
  links :: links_dict
  paths :: pathset
  distances :: distance_table
  link_indices :: "(nat, string) dict"

definition new_analyzer :: analyzer where
  "new_analyzer = \<lparr>links = [], paths = [], distances = [], link_indices = []\<rparr>"

text \<open>
  \<^verbatim>\<open>load_network\<close> reads, for the link indices \<open>1..num_links\<close>, the identifier, the
  identifiers of the two end nodes and the length of each link from the engine.  The
  engine is not part of the repository: its answers are the list \<open>rows\<close>, one row per
  link index.
\<close>

definition load_network :: "analyzer \<Rightarrow> (string \<times> string \<times> string \<times> real) list \<Rightarrow> analyzer" where
  "load_network a rows =
     foldl (\<lambda>a (link_index, link_id, start_node_id, end_node_id, len).
              a\<lparr>link_indices := AList.update link_index link_id (link_indices a),
                links := AList.update link_id
                           \<lparr>id_link = link_id, start_node = start_node_id,
                            end_node = end_node_id, length_link = len\<rparr> (links a)\<rparr>)
       a (enumerate 1 rows)"

text \<open>
  The invariant of \<^verbatim>\<open>self.links\<close>: the keys of a dictionary are distinct, and every
  link is stored under its own identifier.
\<close>

definition links_ok :: "links_dict \<Rightarrow> bool" where
  "links_ok ls \<longleftrightarrow> distinct (keys ls) \<and> list_all (\<lambda>(k, d). id_link d = k) ls"

subsection \<open>The graph\<close>

type_synonym graph = "(string, (string \<times> string) list) dict"

text \<open>\<^verbatim>\<open>graph.get(node, [])\<close>.\<close>

definition graph_get_list :: "graph \<Rightarrow> string \<Rightarrow> (string \<times> string) list" where
  "graph_get_list graph node = (case map_of graph node of None \<Rightarrow> [] | Some adj \<Rightarrow> adj)"

text \<open>
  \<^verbatim>\<open>if node not in graph: graph[node] = []\<close> followed by
  \<^verbatim>\<open>graph[node].append(edge)\<close>.
\<close>

definition graph_append :: "graph \<Rightarrow> string \<Rightarrow> string \<times> string \<Rightarrow> graph" where
  "graph_append graph node edge =
     (let graph' = (if node \<notin> set (keys graph) then AList.update node [] graph else graph)
      in AList.update node (graph_get_list graph' node @ [edge]) graph')"

definition build_graph :: "links_dict \<Rightarrow> graph" where
  "build_graph ls =
     foldl (\<lambda>graph link.
              graph_append
                (graph_append graph (start_node link) (end_node link, id_link link))
                (end_node link) (start_node link, id_link link))
       [] (dict_values ls)"

text \<open>The directed node pairs of a graph, one for each entry of an adjacency list.\<close>

definition graph_edges :: "graph \<Rightarrow> (string \<times> string) list" where
  "graph_edges graph =
     concat (map (\<lambda>(node, adj). map (\<lambda>(neighbor, next_link). (node, neighbor)) adj) graph)"

subsection \<open>The path enumerator\<close>

type_synonym queue = "(string \<times> string list) list"

type_synonym visited = "(string \<times> string) set"

text \<open>
  The \<^verbatim>\<open>for neighbor, next_link in graph.get(current_node, [])\<close> loop: it appends to
  the queue and adds to the visited set as it goes, so a later neighbour of the same
  adjacency list sees the pairs added for the earlier ones.
\<close>

fun expand ::
  "string \<Rightarrow> string list \<Rightarrow> (string \<times> string) list \<Rightarrow> queue \<times> visited \<Rightarrow> queue \<times> visited" where
  "expand current_node path [] (queue, visited) = (queue, visited)"
| "expand current_node path ((neighbor, next_link) # adj) (queue, visited) =
     (if next_link \<notin> set path \<and> (current_node, neighbor) \<notin> visited
      then expand current_node path adj
             (queue @ [(neighbor, path @ [next_link])], insert (current_node, neighbor) visited)
      else expand current_node path adj (queue, visited))"

lemma expand_measure:
  "expand cur path adj (q, vis) = (q', vis') \<Longrightarrow>
   (\<lambda>(nb, l). (cur, nb)) ` set adj \<subseteq> E \<Longrightarrow> finite E \<Longrightarrow>
   length q' + card (E - vis') = length q + card (E - vis)"
proof (induction adj arbitrary: q vis)
  case Nil
  then show ?case by simp
next
  case (Cons a adj)
  obtain nb l where a: "a = (nb, l)" by (cases a)
  show ?case
  proof (cases "l \<notin> set path \<and> (cur, nb) \<notin> vis")
    case True
    with Cons.prems a
    have e: "expand cur path adj (q @ [(nb, path @ [l])], insert (cur, nb) vis) = (q', vis')"
      by simp
    from Cons.prems a have sub: "(\<lambda>(nb, l). (cur, nb)) ` set adj \<subseteq> E" and inE: "(cur, nb) \<in> E"
      by auto
    have "length q' + card (E - vis')
            = length (q @ [(nb, path @ [l])]) + card (E - insert (cur, nb) vis)"
      by (rule Cons.IH [OF e sub Cons.prems(3)])
    moreover have "E - vis = insert (cur, nb) (E - insert (cur, nb) vis)"
      using True inE by auto
    then have "card (E - vis) = Suc (card (E - insert (cur, nb) vis))"
      using Cons.prems(3) by (metis Diff_iff card_insert_disjoint finite_Diff insertI1)
    ultimately show ?thesis by simp
  next
    case False
    with Cons.prems a have e: "expand cur path adj (q, vis) = (q', vis')"
      by auto
    from Cons.prems have sub: "(\<lambda>(nb, l). (cur, nb)) ` set adj \<subseteq> E"
      by auto
    show ?thesis by (rule Cons.IH [OF e sub Cons.prems(3)])
  qed
qed

lemma graph_get_list_edges:
  "(\<lambda>(nb, l). (cur, nb)) ` set (graph_get_list g cur) \<subseteq> set (graph_edges g)"
proof (cases "map_of g cur")
  case None
  then show ?thesis by (simp add: graph_get_list_def)
next
  case (Some adj)
  then have "(cur, adj) \<in> set g" by (rule map_of_SomeD)
  with Some show ?thesis
    by (force simp: graph_get_list_def graph_edges_def)
qed

text \<open>
  The \<^verbatim>\<open>while queue\<close> loop of \<^verbatim>\<open>bfs_paths\<close>.  \<^verbatim>\<open>queue.pop(0)\<close> takes the head of
  the queue; \<^verbatim>\<open>path[-1]\<close> raises \<^verbatim>\<open>IndexError\<close> on an empty path.  The loop
  terminates because an iteration removes one entry of the queue, and every entry it adds
  takes one directed node pair of the graph out of the pairs not yet visited.
\<close>

function bfs_loop ::
  "graph \<Rightarrow> string \<Rightarrow> queue \<Rightarrow> visited \<Rightarrow> string list list \<Rightarrow> py_error + string list list" where
  "bfs_loop graph end_link [] visited found = Inr found"
| "bfs_loop graph end_link ((current_node, path) # queue) visited found =
     (if path = [] then Inl IndexError
      else if last path = end_link then bfs_loop graph end_link queue visited (found @ [path])
      else (case expand current_node path (graph_get_list graph current_node) (queue, visited) of
              (queue', visited') \<Rightarrow> bfs_loop graph end_link queue' visited' found))"
  by pat_completeness auto
termination
proof (relation "measure (\<lambda>(graph, end_link, queue, visited, found).
                   length queue + card (set (graph_edges graph) - visited))", goal_cases)
  case 1
  show ?case by simp
next
  case 2
  show ?case by simp
next
  case (3 graph end_link current_node path queue visited found queue' visited')
  then have "expand current_node path (graph_get_list graph current_node) (queue, visited)
               = (queue', visited')"
    by simp
  then have "length queue' + card (set (graph_edges graph) - visited')
               = length queue + card (set (graph_edges graph) - visited)"
    by (rule expand_measure) (simp_all add: graph_get_list_edges)
  then show ?case by simp
qed

text \<open>
  The same loop with a bound on the number of iterations: \<open>None\<close> when the queue is
  not empty after \<open>fuel\<close> iterations.
\<close>

fun bfs_loop_fuel ::
  "nat \<Rightarrow> graph \<Rightarrow> string \<Rightarrow> queue \<Rightarrow> visited \<Rightarrow> string list list
     \<Rightarrow> (py_error + string list list) option" where
  "bfs_loop_fuel fuel graph end_link [] visited found = Some (Inr found)"
| "bfs_loop_fuel 0 graph end_link ((current_node, path) # queue) visited found = None"
| "bfs_loop_fuel (Suc fuel) graph end_link ((current_node, path) # queue) visited found =
     (if path = [] then Some (Inl IndexError)
      else if last path = end_link
      then bfs_loop_fuel fuel graph end_link queue visited (found @ [path])
      else (case expand current_node path (graph_get_list graph current_node) (queue, visited) of
              (queue', visited') \<Rightarrow> bfs_loop_fuel fuel graph end_link queue' visited' found))"

text \<open>
  \<^verbatim>\<open>bfs_paths\<close>: \<^verbatim>\<open>self.links[start_link]\<close> raises \<^verbatim>\<open>KeyError\<close> for an identifier
  that is not loaded; the queue starts with the two end nodes of the start link, the
  visited set and the list of found paths start empty.
\<close>

definition bfs_start :: "real NetworkLink \<Rightarrow> string \<Rightarrow> queue" where
  "bfs_start start_link_data start_link =
     [(start_node start_link_data, [start_link]), (end_node start_link_data, [start_link])]"

definition bfs_paths :: "links_dict \<Rightarrow> graph \<Rightarrow> string \<Rightarrow> string \<Rightarrow> py_error + string list list" where
  "bfs_paths ls graph start_link end_link =
     (case map_of ls start_link of
        None \<Rightarrow> Inl KeyError
      | Some start_link_data \<Rightarrow>
          bfs_loop graph end_link (bfs_start start_link_data start_link) {} [])"

definition bfs_paths_fuel ::
  "nat \<Rightarrow> links_dict \<Rightarrow> graph \<Rightarrow> string \<Rightarrow> string \<Rightarrow> (py_error + string list list) option" where
  "bfs_paths_fuel fuel ls graph start_link end_link =
     (case map_of ls start_link of
        None \<Rightarrow> Some (Inl KeyError)
      | Some start_link_data \<Rightarrow>
          bfs_loop_fuel fuel graph end_link (bfs_start start_link_data start_link) {} [])"

text \<open>
  \<^verbatim>\<open>itertools.permutations(xs, 2)\<close>: the ordered pairs of elements at two different
  positions, in the order of the positions.
\<close>

definition permutations2 :: "'a list \<Rightarrow> ('a \<times> 'a) list" where
  "permutations2 xs =
     concat (map (\<lambda>i. map (\<lambda>j. (xs ! i, xs ! j)) (filter (\<lambda>j. j \<noteq> i) [0..<length xs]))
               [0..<length xs])"

fun find_all_paths_loop ::
  "links_dict \<Rightarrow> graph \<Rightarrow> (string \<times> string) list \<Rightarrow> pathset \<Rightarrow> py_error + pathset" where
  "find_all_paths_loop ls graph [] ps = Inr ps"
| "find_all_paths_loop ls graph ((start_link, end_link) # pairs) ps =
     (case bfs_paths ls graph start_link end_link of
        Inl e \<Rightarrow> Inl e
      | Inr found \<Rightarrow>
          find_all_paths_loop ls graph pairs (AList.update (start_link, end_link) found ps))"

definition find_all_paths :: "analyzer \<Rightarrow> py_error + analyzer" where
  "find_all_paths a =
     (let graph = build_graph (links a) in
      case find_all_paths_loop (links a) graph (permutations2 (keys (links a))) (paths a) of
        Inl e \<Rightarrow> Inl e
      | Inr ps \<Rightarrow> Inr (a\<lparr>paths := ps\<rparr>))"

subsection \<open>Shortest distances\<close>

text \<open>\<^verbatim>\<open>[self.compute_path_distance(path) for path in paths]\<close>.\<close>

fun path_distances :: "links_dict \<Rightarrow> string list list \<Rightarrow> py_error + real list" where
  "path_distances ls [] = Inr []"
| "path_distances ls (path # ps) =
     (case compute_path_distance ls path of
        Inl e \<Rightarrow> Inl e
      | Inr d \<Rightarrow>
          (case path_distances ls ps of
             Inl e \<Rightarrow> Inl e
           | Inr ds \<Rightarrow> Inr (d # ds)))"

text \<open>
  The loop of \<^verbatim>\<open>compute_shortest_distances\<close> over \<^verbatim>\<open>self.paths.items()\<close>: a pair
  with an empty list of paths is skipped, any other pair gets the minimum of the
  distances of its paths.
\<close>

fun shortest_distances_loop ::
  "links_dict \<Rightarrow> (((string \<times> string) \<times> string list list) list) \<Rightarrow> distance_table
     \<Rightarrow> py_error + distance_table" where
  "shortest_distances_loop ls [] dt = Inr dt"
| "shortest_distances_loop ls ((link_pair, ps) # items) dt =
     (if ps \<noteq> []
      then (case path_distances ls ps of
              Inl e \<Rightarrow> Inl e
            | Inr ds \<Rightarrow> shortest_distances_loop ls items (AList.update link_pair (min_list ds) dt))
      else shortest_distances_loop ls items dt)"

definition compute_shortest_distances :: "analyzer \<Rightarrow> py_error + analyzer" where
  "compute_shortest_distances a =
     (case shortest_distances_loop (links a) (paths a) (distances a) of
        Inl e \<Rightarrow> Inl e
      | Inr dt \<Rightarrow> Inr (a\<lparr>distances := dt\<rparr>))"

subsection \<open>Natural sort key\<close>

text \<open>
  The sort key \<^verbatim>\<open>[int(t) if t.isdigit() else t.lower() for t in re.split('([0-9]+)', x)]\<close>
  is a list of integers and strings.  Python compares such lists position by position,
  a proper prefix being smaller; comparing an integer with a string raises
  \<^verbatim>\<open>TypeError\<close>.  In the order on \<open>token\<close> below an integer is smaller than a string;
  the keys of two identifiers never compare an integer with a string, since the
  elements at even positions are strings and those at odd positions are integers.
\<close>

datatype token = Num int | Str string

instantiation token :: linorder
begin

fun less_eq_token :: "token \<Rightarrow> token \<Rightarrow> bool" where
  "less_eq_token (Num a) (Num b) = (a \<le> b)"
| "less_eq_token (Str a) (Str b) = (a \<le> b)"
| "less_eq_token (Num a) (Str b) = True"
| "less_eq_token (Str a) (Num b) = False"

definition less_token :: "token \<Rightarrow> token \<Rightarrow> bool" where
  "less_token x y \<longleftrightarrow> x \<le> y \<and> \<not> y \<le> (x :: token)"

instance
proof
  fix x y z :: token
  show "(x < y) = (x \<le> y \<and> \<not> y \<le> x)"
    by (simp add: less_token_def)
  show "x \<le> x"
    by (cases x) simp_all
  show "x \<le> y \<Longrightarrow> y \<le> z \<Longrightarrow> x \<le> z"
    by (cases x; cases y; cases z) simp_all
  show "x \<le> y \<Longrightarrow> y \<le> x \<Longrightarrow> x = y"
    by (cases x; cases y) simp_all
  show "x \<le> y \<or> y \<le> x"
    by (cases x; cases y) auto
qed

end

text \<open>
  \<^verbatim>\<open>str.isdigit\<close>, \<^verbatim>\<open>str.lower\<close> and \<^verbatim>\<open>int\<close> are not part of the repository.  They are
  given here as they act on ASCII text, where the digits are \<open>0\<close> to \<open>9\<close> and the
  upper-case letters are \<open>A\<close> to \<open>Z\<close>.  On other text Python follows the Unicode tables:
  there are more digits and more letters, \<^verbatim>\<open>int\<close> raises \<^verbatim>\<open>ValueError\<close> on a string such
  as a superscript two that \<^verbatim>\<open>isdigit\<close> accepts, a key can then hold an integer where
  another holds a string, which raises \<^verbatim>\<open>TypeError\<close> in the comparison, and \<^verbatim>\<open>int\<close>
  refuses a string of more than 4300 digits.  None of this is modelled: the domain of
  the sort key is \<open>ascii_id\<close> below, and every statement about the matrices carries it
  as a hypothesis.
\<close>

definition is_digit :: "char \<Rightarrow> bool" where
  "is_digit c \<longleftrightarrow> c \<in> set ''0123456789''"

definition isdigit :: "string \<Rightarrow> bool" where
  "isdigit t \<longleftrightarrow> t \<noteq> [] \<and> list_all is_digit t"

definition lower_char :: "char \<Rightarrow> char" where
  "lower_char c =
     (case map_of (zip ''ABCDEFGHIJKLMNOPQRSTUVWXYZ'' ''abcdefghijklmnopqrstuvwxyz'') c of
        None \<Rightarrow> c
      | Some c' \<Rightarrow> c')"

definition lower :: "string \<Rightarrow> string" where
  "lower t = map lower_char t"

text \<open>\<^verbatim>\<open>int(t)\<close> for a string of at most 4300 ASCII digits.\<close>

definition digit_value :: "char \<Rightarrow> int" where
  "digit_value c = (case map_of (zip ''0123456789'' [0, 1, 2, 3, 4, 5, 6, 7, 8, 9]) c of
                      None \<Rightarrow> 0
                    | Some v \<Rightarrow> v)"

definition int_of_digits :: "string \<Rightarrow> int" where
  "int_of_digits t = foldl (\<lambda>n c. 10 * n + digit_value c) 0 t"

text \<open>
  \<^verbatim>\<open>re.split('([0-9]+)', x)\<close>: the maximal runs of digits of \<open>x\<close> and the text
  between them, in order.  The list starts and ends with a run of non-digits, which is
  empty when \<open>x\<close> starts or ends with a digit.
\<close>

lemma dropWhile_shorter: "xs \<noteq> [] \<Longrightarrow> P (hd xs) \<Longrightarrow> length (dropWhile P xs) < length xs"
  by (cases xs) (simp_all add: le_imp_less_Suc length_dropWhile_le)

function re_split_digits :: "string \<Rightarrow> string list" where
  "re_split_digits x =
     (let pre = takeWhile (\<lambda>c. \<not> is_digit c) x;
          rest = dropWhile (\<lambda>c. \<not> is_digit c) x
      in if rest = [] then [pre]
         else pre # takeWhile is_digit rest # re_split_digits (dropWhile is_digit rest))"
  by pat_completeness auto
termination
proof (relation "measure length", goal_cases)
  case 1
  show ?case by simp
next
  case (2 x pre rest)
  then have "is_digit (hd rest)"
    using hd_dropWhile [of "\<lambda>c. \<not> is_digit c" x] by simp
  with 2 have "length (dropWhile is_digit rest) < length rest"
    by (intro dropWhile_shorter) simp_all
  also have "length rest \<le> length x"
    using 2 by (simp add: length_dropWhile_le)
  finally show ?case by simp
qed

definition natural_key :: "string \<Rightarrow> token list" where
  "natural_key x =
     map (\<lambda>t. if isdigit t then Num (int_of_digits t) else Str (lower t)) (re_split_digits x)"

text \<open>
  The identifiers on which \<open>natural_key\<close> is the key of the code: ASCII text (no
  character has its eighth bit set) of at most 4300 characters.
\<close>

definition ascii_id :: "string \<Rightarrow> bool" where
  "ascii_id s \<longleftrightarrow> length s \<le> 4300 \<and> list_all (\<lambda>c. \<not> digit7 c) s"

definition ascii_links :: "links_dict \<Rightarrow> bool" where
  "ascii_links ls \<longleftrightarrow> list_all ascii_id (keys ls)"

subsection \<open>Distance matrices\<close>

text \<open>
  A \<^verbatim>\<open>pandas.DataFrame\<close> of floats: the row labels, the column labels and the rows of
  cells.  \<^verbatim>\<open>DataFrame(v, index=.., columns=..)\<close> fills every cell with \<open>v\<close>.
\<close>

record 'a frame =
  index :: "'a list"
  columns :: "'a list"
  cells :: "real list list"

definition DataFrame :: "real \<Rightarrow> 'a list \<Rightarrow> 'a list \<Rightarrow> 'a frame" where
  "DataFrame v idx cols =
     \<lparr>index = idx, columns = cols, cells = replicate (length idx) (replicate (length cols) v)\<rparr>"

text \<open>The position of a label in a list of labels.\<close>

fun get_loc :: "'a list \<Rightarrow> 'a \<Rightarrow> nat option" where
  "get_loc [] x = None"
| "get_loc (y # ys) x = (if x = y then Some 0 else map_option Suc (get_loc ys x))"

text \<open>
  \<^verbatim>\<open>frame.at[r, c] = v\<close> and the read \<^verbatim>\<open>frame.at[r, c]\<close>.  For a label that the
  frame does not have, the assignment is modelled as \<^verbatim>\<open>KeyError\<close>; pandas would add
  a row or a column there.  In \<^verbatim>\<open>create_distance_matrices\<close> this makes no difference
  to the result: the labels of the frame are the keys of \<^verbatim>\<open>self.links\<close>, and a pair
  of \<^verbatim>\<open>self.distances\<close> with an identifier outside them raises \<^verbatim>\<open>KeyError\<close> at
  \<^verbatim>\<open>id_to_index[..]\<close> in the second loop.
\<close>

definition at_set :: "'a frame \<Rightarrow> 'a \<Rightarrow> 'a \<Rightarrow> real \<Rightarrow> py_error + 'a frame" where
  "at_set f r c v =
     (case get_loc (index f) r of
        None \<Rightarrow> Inl KeyError
      | Some i \<Rightarrow>
          (case get_loc (columns f) c of
             None \<Rightarrow> Inl KeyError
           | Some j \<Rightarrow> Inr (f\<lparr>cells := (cells f)[i := (cells f ! i)[j := v]]\<rparr>)))"

definition at_get :: "'a frame \<Rightarrow> 'a \<Rightarrow> 'a \<Rightarrow> real option" where
  "at_get f r c =
     (case get_loc (index f) r of
        None \<Rightarrow> None
      | Some i \<Rightarrow>
          (case get_loc (columns f) c of
             None \<Rightarrow> None
           | Some j \<Rightarrow> Some (cells f ! i ! j)))"

text \<open>The loop that fills the identifier-indexed matrix.\<close>

fun fill_id_matrix ::
  "string frame \<Rightarrow> ((string \<times> string) \<times> real) list \<Rightarrow> py_error + string frame" where
  "fill_id_matrix m [] = Inr m"
| "fill_id_matrix m (((link1, link2), distance) # items) =
     (case at_set m link1 link2 distance of
        Inl e \<Rightarrow> Inl e
      | Inr m1 \<Rightarrow>
          (case at_set m1 link2 link1 distance of
             Inl e \<Rightarrow> Inl e
           | Inr m2 \<Rightarrow> fill_id_matrix m2 items))"

text \<open>The loop that fills the index-indexed matrix, through \<^verbatim>\<open>id_to_index\<close>.\<close>

fun fill_index_matrix ::
  "(string, nat) dict \<Rightarrow> nat frame \<Rightarrow> ((string \<times> string) \<times> real) list \<Rightarrow> py_error + nat frame" where
  "fill_index_matrix id_to_index m [] = Inr m"
| "fill_index_matrix id_to_index m (((link1, link2), distance) # items) =
     (case map_of id_to_index link1 of
        None \<Rightarrow> Inl KeyError
      | Some idx1 \<Rightarrow>
          (case map_of id_to_index link2 of
             None \<Rightarrow> Inl KeyError
           | Some idx2 \<Rightarrow>
               (case at_set m idx1 idx2 distance of
                  Inl e \<Rightarrow> Inl e
                | Inr m1 \<Rightarrow>
                    (case at_set m1 idx2 idx1 distance of
                       Inl e \<Rightarrow> Inl e
                     | Inr m2 \<Rightarrow> fill_index_matrix id_to_index m2 items))))"

text \<open>
  \<^verbatim>\<open>sorted(self.links.keys(), key=..)\<close> is a stable sort by the key, as
  \<^const>\<open>sort_key\<close> is.
\<close>

definition unique_links :: "analyzer \<Rightarrow> string list" where
  "unique_links a = sort_key natural_key (keys (links a))"

definition make_id_to_index :: "string list \<Rightarrow> (string, nat) dict" where
  "make_id_to_index ul = foldl (\<lambda>d (idx, link_id). AList.update link_id idx d) [] (enumerate 0 ul)"

definition create_distance_matrices :: "analyzer \<Rightarrow> py_error + (nat frame \<times> string frame)" where
  "create_distance_matrices a =
     (let ul = unique_links a in
      case fill_id_matrix (DataFrame 0 ul ul) (distances a) of
        Inl e \<Rightarrow> Inl e
      | Inr id_matrix \<Rightarrow>
          (let num_links = length ul;
               id_to_index = make_id_to_index ul
           in case fill_index_matrix id_to_index
                     (DataFrame 0 [0..<num_links] [0..<num_links]) (distances a) of
                Inl e \<Rightarrow> Inl e
              | Inr index_matrix \<Rightarrow> Inr (index_matrix, id_matrix)))"

subsection \<open>The paths file\<close>

text \<open>
  \<^verbatim>\<open>save_paths\<close> writes the dictionary \<^verbatim>\<open>string_keys_paths\<close> as a JSON object and
  \<^verbatim>\<open>load_paths\<close> reads it back.  The JSON library is not part of the repository; the
  file is modelled by the object it holds, a dictionary from strings to lists of paths,
  which \<^verbatim>\<open>json.load\<close> returns as \<^verbatim>\<open>json.dump\<close> received it.  \<^verbatim>\<open>tuple(key.split(','))\<close>
  is a tuple of any length, modelled as a list of strings.
\<close>

type_synonym paths_file = "(string, string list list) dict"

definition save_paths :: "analyzer \<Rightarrow> paths_file" where
  "save_paths a =
     foldl (\<lambda>d (key, v). AList.update (fst key @ '','' @ snd key) v d) [] (paths a)"

text \<open>\<^verbatim>\<open>key.split(',')\<close>.\<close>

fun split_comma :: "string \<Rightarrow> string list" where
  "split_comma [] = [[]]"
| "split_comma (c # cs) =
     (if c = CHR '','' then [] # split_comma cs
      else (case split_comma cs of
              [] \<Rightarrow> [[c]]
            | t # ts \<Rightarrow> (c # t) # ts))"

definition load_paths :: "paths_file \<Rightarrow> (string list, string list list) dict" where
  "load_paths file = foldl (\<lambda>d (key, v). AList.update (split_comma key) v d) [] file"

text \<open>The pair \<open>(a, b)\<close> as the tuple that \<^verbatim>\<open>load_paths\<close> builds.\<close>

definition pair_tuple :: "string \<times> string \<Rightarrow> string list" where
  "pair_tuple key = [fst key, snd key]"

subsection \<open>The analysis\<close>

text \<open>
  The computing steps of \<^verbatim>\<open>analyze_network\<close> on a fresh analyzer whose links are
  loaded: find all paths, then compute the shortest distances.  The matrices are made
  from the resulting analyzer.
\<close>

definition analyze :: "links_dict \<Rightarrow> py_error + analyzer" where
  "analyze ls =
     (case find_all_paths (new_analyzer\<lparr>links := ls\<rparr>) of
        Inl e \<Rightarrow> Inl e
      | Inr a \<Rightarrow> compute_shortest_distances a)"

section \<open>Notions for the statements\<close>

text \<open>The link identifiers that occur in the adjacency lists of a graph.\<close>

definition graph_links :: "graph \<Rightarrow> string set" where
  "graph_links g = (\<Union>(n, adj) \<in> set g. snd ` set adj)"

text \<open>
  What holds of every partial path of a search from \<open>s\<close>: it starts with \<open>s\<close>, repeats
  no link, and its links are among \<open>L\<close>.
\<close>

definition partial_path :: "string \<Rightarrow> string set \<Rightarrow> string list \<Rightarrow> bool" where
  "partial_path s L p \<longleftrightarrow> p \<noteq> [] \<and> hd p = s \<and> distinct p \<and> set p \<subseteq> L"

text \<open>
  The invariant of the loop, with \<open>k\<close> the length of the path at the head of the queue:
  the lengths in the queue are sorted and lie between \<open>k\<close> and \<open>k + 1\<close>.
\<close>

definition queue_from :: "nat \<Rightarrow> queue \<Rightarrow> bool" where
  "queue_from k q \<longleftrightarrow>
     sorted (map (\<lambda>(n, p). length p) q) \<and> list_all (\<lambda>(n, p). k \<le> length p \<and> length p \<le> Suc k) q"

text \<open>
  A network with a cycle: the links \<open>S\<close>, \<open>R1\<close> and \<open>R2\<close> form a triangle on the
  nodes \<open>a\<close>, \<open>b\<close> and \<open>u\<close>, and the link \<open>T\<close> leaves the triangle at \<open>u\<close>.
\<close>

definition triangle_links :: links_dict where
  "triangle_links =
     [(''S'', \<lparr>id_link = ''S'', start_node = ''a'', end_node = ''b'', length_link = 10\<rparr>),
      (''R1'', \<lparr>id_link = ''R1'', start_node = ''a'', end_node = ''u'', length_link = 100\<rparr>),
      (''R2'', \<lparr>id_link = ''R2'', start_node = ''b'', end_node = ''u'', length_link = 1\<rparr>),
      (''T'', \<lparr>id_link = ''T'', start_node = ''u'', end_node = ''w'', length_link = 10\<rparr>)]"

text \<open>
  For stating results: the paths the enumerator returns for a pair of links, and the
  distance of a path, where these are computed without error.
\<close>

definition found_paths :: "links_dict \<Rightarrow> string \<times> string \<Rightarrow> string list list" where
  "found_paths ls pr =
     (case bfs_paths ls (build_graph ls) (fst pr) (snd pr) of Inl e \<Rightarrow> [] | Inr ps \<Rightarrow> ps)"

definition distance_of :: "links_dict \<Rightarrow> string list \<Rightarrow> real" where
  "distance_of ls p = (case compute_path_distance ls p of Inl e \<Rightarrow> 0 | Inr d \<Rightarrow> d)"

definition shortest :: "links_dict \<Rightarrow> string list list \<Rightarrow> real" where
  "shortest ls ps = min_list (map (distance_of ls) ps)"

definition all_paths :: "links_dict \<Rightarrow> pathset" where
  "all_paths ls = map (\<lambda>pr. (pr, found_paths ls pr)) (permutations2 (keys ls))"

definition all_distances :: "links_dict \<Rightarrow> distance_table" where
  "all_distances ls =
     map (\<lambda>(pr, ps). (pr, shortest ls ps)) (filter (\<lambda>(pr, ps). ps \<noteq> []) (all_paths ls))"

text \<open>
  A frame is well formed when its labels are distinct and its cells have one row for
  each row label and, in every row, one cell for each column label.
\<close>

definition wf_frame :: "'a frame \<Rightarrow> bool" where
  "wf_frame f \<longleftrightarrow>
     distinct (index f) \<and> distinct (columns f) \<and> length (cells f) = length (index f)
     \<and> list_all (\<lambda>row. length row = length (columns f)) (cells f)"

text \<open>The cells after one assignment.\<close>

definition set_cell :: "real list list \<Rightarrow> nat \<Rightarrow> nat \<Rightarrow> real \<Rightarrow> real list list" where
  "set_cell cs i j v = cs[i := (cs ! i)[j := v]]"

text \<open>
  The last entry of a distance table that is written into the cell \<open>(r, c)\<close>: the last
  one whose pair is \<open>(r, c)\<close> or \<open>(c, r)\<close>.
\<close>

definition last_write :: "(('a \<times> 'a) \<times> real) list \<Rightarrow> 'a \<Rightarrow> 'a \<Rightarrow> (('a \<times> 'a) \<times> real) option" where
  "last_write items r c = find (\<lambda>x. fst x = (r, c) \<or> fst x = (c, r)) (rev items)"

definition cell_value :: "(('a \<times> 'a) \<times> real) list \<Rightarrow> 'a \<Rightarrow> 'a \<Rightarrow> real" where
  "cell_value items r c = (case last_write items r c of None \<Rightarrow> 0 | Some (k, d) \<Rightarrow> d)"

text \<open>
  The sort key in the words of the specification: the identifier is split into
  alternating runs of non-digits and digits; a run of digits counts by its number, a run
  of non-digits by its text in lower case.
\<close>

fun alternating :: "string list \<Rightarrow> bool" where
  "alternating [] = False"
| "alternating [t] = list_all (\<lambda>c. \<not> is_digit c) t"
| "alternating (t # d # runs) =
     (list_all (\<lambda>c. \<not> is_digit c) t \<and> d \<noteq> [] \<and> list_all is_digit d \<and> alternating runs)"

fun key_of_runs :: "string list \<Rightarrow> token list" where
  "key_of_runs [] = []"
| "key_of_runs [t] = [Str (lower t)]"
| "key_of_runs (t # d # runs) = Str (lower t) # Num (int_of_digits d) # key_of_runs runs"

text \<open>A chain of three links whose identifiers end in the numbers 10, 2 and 1.\<close>

definition numbered_links :: links_dict where
  "numbered_links =
     [(''L10'', \<lparr>id_link = ''L10'', start_node = ''n1'', end_node = ''n2'', length_link = 5\<rparr>),
      (''L2'', \<lparr>id_link = ''L2'', start_node = ''n2'', end_node = ''n3'', length_link = 5\<rparr>),
      (''L1'', \<lparr>id_link = ''L1'', start_node = ''n3'', end_node = ''n4'', length_link = 5\<rparr>)]"

text \<open>The key of the file for a pair of identifiers, and identifiers without a comma.\<close>

definition file_key :: "string \<times> string \<Rightarrow> string" where
  "file_key key = fst key @ '','' @ snd key"

definition comma_free :: "string \<Rightarrow> bool" where
  "comma_free s \<longleftrightarrow> CHR '','' \<notin> set s"

text \<open>
  A network whose first link has a comma in its identifier, which the engine allows in an
  identifier label.
\<close>

definition comma_links :: links_dict where
  "comma_links =
     [(''P,1'', \<lparr>id_link = ''P,1'', start_node = ''n1'', end_node = ''n2'', length_link = 4\<rparr>),
      (''P2'', \<lparr>id_link = ''P2'', start_node = ''n2'', end_node = ''n3'', length_link = 6\<rparr>)]"

section \<open>Loaded networks\<close>

text \<open>
  Whatever the engine answers, the links that \<^verbatim>\<open>load_network\<close> leaves in a fresh
  analyzer are keyed by their own identifiers, without repetition.
\<close>

lemma links_ok_update:
  assumes "links_ok ls" and "id_link d = k"
  shows "links_ok (AList.update k d ls)"
proof -
  from assms(1) have "distinct (map fst ls)" and all: "\<forall>x \<in> set ls. id_link (snd x) = fst x"
    by (auto simp: links_ok_def keys_def list_all_iff)
  then have "distinct (map fst (AList.update k d ls))"
    by (simp add: distinct_update)
  moreover have "id_link (snd x) = fst x" if "x \<in> set (AList.update k d ls)" for x
  proof -
    from that have "x = (k, d) \<or> x \<in> set ls"
      using set_update_subset_insert by (induction ls) (auto split: if_splits)
    with all assms(2) show ?thesis by auto
  qed
  ultimately show ?thesis
    by (simp add: links_ok_def keys_def list_all_iff case_prod_beta)
qed

lemma load_network_loop_links_ok:
  "links_ok (links a) \<Longrightarrow>
   links_ok (links (foldl (\<lambda>a (link_index, link_id, start_node_id, end_node_id, len).
              a\<lparr>link_indices := AList.update link_index link_id (link_indices a),
                links := AList.update link_id
                           \<lparr>id_link = link_id, start_node = start_node_id,
                            end_node = end_node_id, length_link = len\<rparr> (links a)\<rparr>)
       a rows))"
proof (induction rows arbitrary: a)
  case Nil
  then show ?case by simp
next
  case (Cons row rows)
  obtain i l s e len where row: "row = (i, l, s, e, len)"
    by (cases row) auto
  have "links_ok (AList.update l \<lparr>id_link = l, start_node = s, end_node = e, length_link = len\<rparr>
                    (links a))"
    using Cons.prems by (rule links_ok_update) simp
  then show ?case
    by (simp add: row Cons.IH)
qed

lemma load_network_links_ok: "links_ok (links (load_network new_analyzer rows))"
  unfolding load_network_def
  by (rule load_network_loop_links_ok) (simp add: new_analyzer_def links_ok_def keys_def)

section \<open>Distance of a path: results\<close>

lemma link_lengths_loaded:
  "set path \<subseteq> set (keys ls) \<Longrightarrow> link_lengths ls path = Inr (map (length_of ls) path)"
proof (induction path)
  case Nil
  show ?case by simp
next
  case (Cons l path)
  from Cons.prems have "l \<in> fst ` set ls"
    by (simp add: keys_def)
  then obtain d where d: "map_of ls l = Some d"
    by (metis domD dom_map_of_conv_image_fst)
  from Cons have "link_lengths ls path = Inr (map (length_of ls) path)"
    by simp
  with d show ?case
    by (simp add: length_of_def)
qed

text \<open>
  In exact arithmetic the distance of a path of loaded links is the sum of the lengths
  of its links minus half the length of the first link minus half the length of the
  last link; a one-link path has distance 0, the empty path has distance 0, and the
  chain of three links of lengths 10, 20 and 30 has distance 40.
\<close>

lemma compute_path_distance_exact:
  "(set path \<subseteq> set (keys ls) \<longrightarrow>
      compute_path_distance ls path =
        Inr (if path = [] then 0
             else sum_list (map (length_of ls) path)
                    - length_of ls (hd path) / 2 - length_of ls (last path) / 2))
   \<and> (x \<in> set (keys ls) \<longrightarrow> compute_path_distance ls [x] = Inr 0)
   \<and> compute_path_distance ls [] = Inr 0
   \<and> compute_path_distance chain_links [''A'', ''B'', ''C''] = Inr 40"
proof (intro conjI impI)
  assume sub: "set path \<subseteq> set (keys ls)"
  show "compute_path_distance ls path =
        Inr (if path = [] then 0
             else sum_list (map (length_of ls) path)
                    - length_of ls (hd path) / 2 - length_of ls (last path) / 2)"
  proof (cases "path = []")
    case True
    then show ?thesis by (simp add: compute_path_distance_def)
  next
    case False
    then show ?thesis
      using link_lengths_loaded [OF sub]
      by (simp add: compute_path_distance_def hd_map last_map)
  qed
next
  assume "x \<in> set (keys ls)"
  then have "link_lengths ls [x] = Inr (map (length_of ls) [x])"
    by (intro link_lengths_loaded) simp
  then show "compute_path_distance ls [x] = Inr 0"
    by (simp add: compute_path_distance_def)
next
  show "compute_path_distance ls [] = Inr 0"
    by (simp add: compute_path_distance_def)
next
  show "compute_path_distance chain_links [''A'', ''B'', ''C''] = Inr 40"
    by (simp add: compute_path_distance_def chain_links_def)
qed

subsection \<open>Distance of a path in double precision: results\<close>

lemma round_half_even_exact:
  assumes "0 < d" and "d dvd n"
  shows "round_half_even n d = n div d"
  using assms by (simp add: round_half_even_def Let_def mod_eq_0_iff_dvd)

lemma round_units_double:
  assumes "is_double n"
  shows "round_units n = Finite n"
proof (cases "\<bar>n\<bar> < 2 ^ 53")
  case True
  then show ?thesis by (simp add: round_units_def)
next
  case False
  let ?e = "nat (bitlen \<bar>n\<bar> - 53)"
  from assms False have dvd: "(2::int) ^ ?e dvd n" and small: "\<bar>n\<bar> < 2 ^ 2098"
    by (simp_all add: is_double_def)
  have "round_half_even n (2 ^ ?e) = n div 2 ^ ?e"
    using dvd by (intro round_half_even_exact) simp_all
  moreover have "n div 2 ^ ?e * 2 ^ ?e = n"
    using dvd by simp
  ultimately show ?thesis
    using False small by (simp add: round_units_def Let_def)
qed

lemma is_double_small:
  assumes "\<bar>m\<bar> < 2 ^ 53"
  shows "is_double m"
proof -
  have "(2::int) ^ 53 < 2 ^ 2098" by simp
  with assms have "\<bar>m\<bar> < 2 ^ 2098" by (rule less_trans)
  with assms show ?thesis by (simp add: is_double_def)
qed

lemma bitlen_1: "bitlen 1 = 1"
  by (subst compute_bitlen) simp

lemma is_double_pow53: "is_double (2 ^ 53)" "is_double (- (2 ^ 53))"
proof -
  have b: "bitlen (2 ^ 53) = 54"
    using bitlen_pow2 [of 1 53] by (simp add: bitlen_1)
  have d: "(2::int) ^ nat (54 - 53) dvd 2 ^ 53" by simp
  have s: "(2::int) ^ 53 < 2 ^ 2098" by simp
  show "is_double (2 ^ 53)"
    unfolding is_double_def using b d s by simp
  show "is_double (- (2 ^ 53))"
    unfolding is_double_def using b d s by simp
qed

lemma is_double_even_bound:
  assumes "\<bar>n\<bar> \<le> 2 ^ 53"
  shows "is_double n"
proof -
  from assms consider "\<bar>n\<bar> < 2 ^ 53" | "n = 2 ^ 53" | "n = - (2 ^ 53)"
    by (cases "0 \<le> n") (simp_all, linarith+)
  then show ?thesis
  proof cases
    case 1
    then show ?thesis by (rule is_double_small)
  next
    case 2
    then show ?thesis by (simp only: is_double_pow53)
  next
    case 3
    then show ?thesis by (simp only: is_double_pow53)
  qed
qed

lemma round_half_even_2:
  "round_half_even m 2 = (if even m \<or> even (m div 2) then m div 2 else m div 2 + 1)"
proof (cases "even m")
  case True
  then show ?thesis by (simp add: round_half_even_exact)
next
  case False
  then have "m mod 2 = 1" by (simp add: odd_iff_mod_2_eq_one)
  with False show ?thesis by (simp add: round_half_even_def Let_def)
qed

lemma is_double_odd:
  assumes "is_double m" and "odd m"
  shows "\<bar>m\<bar> < 2 ^ 53"
proof (rule ccontr)
  assume n: "\<not> \<bar>m\<bar> < 2 ^ 53"
  with assms(1) have dvd: "(2::int) ^ nat (bitlen \<bar>m\<bar> - 53) dvd m"
    by (simp add: is_double_def)
  have pos: "0 < \<bar>m\<bar>" using n by auto
  have "\<bar>m\<bar> < 2 ^ nat (bitlen \<bar>m\<bar>)"
    using bitlen_bounds [OF pos] by simp
  have "53 < bitlen \<bar>m\<bar>"
  proof (rule ccontr)
    assume "\<not> 53 < bitlen \<bar>m\<bar>"
    then have "nat (bitlen \<bar>m\<bar>) \<le> 53" by simp
    then have "(2::int) ^ nat (bitlen \<bar>m\<bar>) \<le> 2 ^ 53"
      by (intro power_increasing) simp_all
    with \<open>\<bar>m\<bar> < 2 ^ nat (bitlen \<bar>m\<bar>)\<close> n show False by simp
  qed
  then obtain k where k: "nat (bitlen \<bar>m\<bar> - 53) = Suc k"
    by (cases "nat (bitlen \<bar>m\<bar> - 53)") simp_all
  from dvd have "2 dvd m"
    unfolding k by (metis dvd_mult_left power_Suc)
  with assms(2) show False by simp
qed

lemma one_link_distance:
  assumes "is_double m"
  shows "fsub (Finite m) (fadd (fhalf (Finite m)) (fhalf (Finite m)))
         = Finite (if even m then 0 else if even (m div 2) then 1 else - 1)"
proof (cases "even m")
  case True
  then have "round_half_even m 2 + round_half_even m 2 = m"
    by (auto simp: round_half_even_2)
  then have "fadd (fhalf (Finite m)) (fhalf (Finite m)) = round_units m"
    by simp
  also have "\<dots> = Finite m"
    using assms by (rule round_units_double)
  finally have "fsub (Finite m) (fadd (fhalf (Finite m)) (fhalf (Finite m))) = round_units 0"
    by (simp add: fsub_def)
  also have "\<dots> = Finite 0"
    by (simp add: round_units_def)
  finally show ?thesis
    using True by simp
next
  case False
  with assms have b: "\<bar>m\<bar> < 2 ^ 53" by (rule is_double_odd)
  let ?h = "round_half_even m 2"
  have h: "?h + ?h = (if even (m div 2) then m - 1 else m + 1)"
    using False unfolding round_half_even_2 by presburger
  have "\<bar>?h + ?h\<bar> \<le> 2 ^ 53"
    unfolding h using b by (auto simp: abs_if split: if_splits)
  then have "round_units (?h + ?h) = Finite (?h + ?h)"
    by (intro round_units_double is_double_even_bound)
  then have "fadd (fhalf (Finite m)) (fhalf (Finite m)) = Finite (?h + ?h)"
    by simp
  then have "fsub (Finite m) (fadd (fhalf (Finite m)) (fhalf (Finite m)))
             = round_units (m - (?h + ?h))"
    by (simp add: fsub_def)
  also have "\<dots> = Finite (if even (m div 2) then 1 else - 1)"
    unfolding h by (simp add: round_units_def)
  finally show ?thesis
    using False by simp
qed

lemma is_double_of_nat:
  assumes "0 < k" and "k < 2 ^ 53"
  shows "is_double (int k * 2 ^ 1074)"
proof -
  let ?n = "int k * 2 ^ 1074"
  have pos: "0 < int k" using assms(1) by simp
  have abs: "\<bar>?n\<bar> = ?n" using pos by simp
  have bl: "bitlen ?n = bitlen (int k) + 1074"
    using bitlen_pow2 [OF pos, of 1074] by simp
  have k53: "int k < 2 ^ 53" using assms(2)
    by (metis of_nat_less_iff of_nat_numeral of_nat_power)
  have "bitlen (int k) \<le> 53"
    using k53 pos by (simp add: bitlen_le_iff_power)
  then have "nat (bitlen ?n - 53) \<le> 1074"
    unfolding bl by simp
  then have "(2::int) ^ nat (bitlen ?n - 53) dvd 2 ^ 1074"
    by (rule le_imp_power_dvd)
  then have dvd: "(2::int) ^ nat (bitlen ?n - 53) dvd ?n"
    by (rule dvd_mult)
  have "?n < 2 ^ 53 * 2 ^ 1074"
    using k53 by simp
  also have "\<dots> < (2::int) ^ 2098" by simp
  finally have "?n < 2 ^ 2098" .
  with dvd show ?thesis
    unfolding is_double_def abs by simp
qed

lemma double_of_nat_0: "double_of_nat 0 = Finite 0"
  by (simp only: double_of_nat_def of_nat_0 mult_zero_left)

lemma fadd_double_of_nat:
  assumes "a + b < 2 ^ 53"
  shows "fadd (double_of_nat a) (double_of_nat b) = double_of_nat (a + b)"
proof (cases "a + b = 0")
  case True
  then have "a = 0" and "b = 0" by simp_all
  then show ?thesis
    by (simp add: double_of_nat_0 round_units_def)
next
  case False
  then have "is_double (int (a + b) * 2 ^ 1074)"
    using assms by (intro is_double_of_nat) simp_all
  then have r: "round_units (int (a + b) * 2 ^ 1074) = Finite (int (a + b) * 2 ^ 1074)"
    by (rule round_units_double)
  have e: "int a * 2 ^ 1074 + int b * 2 ^ 1074 = int (a + b) * 2 ^ 1074"
    by (simp only: of_nat_add distrib_right)
  have "fadd (double_of_nat a) (double_of_nat b)
        = round_units (int a * 2 ^ 1074 + int b * 2 ^ 1074)"
    by (simp only: double_of_nat_def fadd.simps)
  also have "\<dots> = Finite (int (a + b) * 2 ^ 1074)"
    by (simp only: e r)
  finally show ?thesis
    by (simp only: double_of_nat_def)
qed

lemma fsub_double_of_nat:
  assumes "b \<le> a" and "a < 2 ^ 53"
  shows "fsub (double_of_nat a) (double_of_nat b) = double_of_nat (a - b)"
proof (cases "a - b = 0")
  case True
  with assms have "a = b" by simp
  then have "fsub (double_of_nat a) (double_of_nat b) = round_units 0"
    by (simp only: double_of_nat_def fsub_def fneg.simps fadd.simps add_uminus_conv_diff diff_self)
  also have "\<dots> = double_of_nat (a - b)"
    using True by (simp add: double_of_nat_0 round_units_def)
  finally show ?thesis .
next
  case False
  then have "is_double (int (a - b) * 2 ^ 1074)"
    using assms by (intro is_double_of_nat) simp_all
  then have r: "round_units (int (a - b) * 2 ^ 1074) = Finite (int (a - b) * 2 ^ 1074)"
    by (rule round_units_double)
  have e: "int a * 2 ^ 1074 - int b * 2 ^ 1074 = int (a - b) * 2 ^ 1074"
    using assms(1) by (simp add: of_nat_diff algebra_simps)
  have "fsub (double_of_nat a) (double_of_nat b)
        = round_units (int a * 2 ^ 1074 - int b * 2 ^ 1074)"
    by (simp only: double_of_nat_def fsub_def fneg.simps fadd.simps add_uminus_conv_diff)
  also have "\<dots> = Finite (int (a - b) * 2 ^ 1074)"
    by (simp only: e r)
  finally show ?thesis
    by (simp only: double_of_nat_def)
qed

lemma fhalf_double_of_nat:
  "fhalf (double_of_nat (2 * k)) = double_of_nat k"
proof -
  have "round_half_even (2 * x) 2 = x" for x :: int
    by (simp add: round_half_even_2)
  then have "round_half_even (2 * (int k * 2 ^ 1074)) 2 = int k * 2 ^ 1074" .
  moreover have "int (2 * k) * 2 ^ 1074 = 2 * (int k * 2 ^ 1074)"
    by (simp only: of_nat_mult of_nat_numeral mult.assoc)
  ultimately show ?thesis
    by (simp only: double_of_nat_def fhalf.simps)
qed

lemma link_lengths_loaded_double:
  "set path \<subseteq> set (keys ls)
   \<Longrightarrow> link_lengths ls path = Inr (map (double_length_of ls) path)"
proof (induction path)
  case Nil
  show ?case by simp
next
  case (Cons l path)
  from Cons.prems have "l \<in> fst ` set ls"
    by (simp add: keys_def)
  then obtain d where d: "map_of ls l = Some d"
    by (metis domD dom_map_of_conv_image_fst)
  from Cons have "link_lengths ls path = Inr (map (double_length_of ls) path)"
    by simp
  with d show ?case
    by (simp add: double_length_of_def)
qed

lemma sum_left_one:
  assumes "is_double m"
  shows "sum_left [Finite m] = Finite m"
  using round_units_double [OF assms] by (simp add: sum_left_def)

text \<open>
  In double precision a one-link path need not have distance 0.  For the link of length
  \<^verbatim>\<open>5e-324\<close> half the length rounds to 0, so that the distance is the length itself:
  \<^verbatim>\<open>5e-324 - (0.0 + 0.0)\<close>.
\<close>

theorem one_link_path_not_zero:
  "compute_path_distance_double sum_left tiny_link [''X''] = Inr (Finite 1)
   \<and> compute_path_distance_double sum_left tiny_link [''X''] \<noteq> Inr (Finite 0)"
  by (simp add: compute_path_distance_double_def tiny_link_def sum_left_def fsub_def
        round_units_def round_half_even_def)

text \<open>
  Claim C3.  For a path of loaded links, \<^verbatim>\<open>compute_path_distance\<close> is, in double
  arithmetic, the sum of the lengths of its links minus the sum of half the length of
  the first link and half the length of the last link, every operation rounded to the
  nearest double.  For a one-link path whose length is a finite double \<open>m * 2^-1074\<close> the
  result is exactly 0 when \<open>m\<close> is even, which is so for every double of magnitude
  \<open>2^-1021\<close> or more; when \<open>m\<close> is odd, half the length is not a double and the result
  is \<open>2^-1074\<close> or \<open>- 2^-1074\<close>.  The empty path has distance 0, and the chain of three
  links of lengths 10, 20 and 30 has distance 40.  The hypotheses on \<open>py_sum\<close> hold for
  the built-in \<^verbatim>\<open>sum\<close>: the sum of one float is that float, and the sum of 10, 20 and
  30 is 60.
\<close>

theorem compute_path_distance_double_formula:
  "(set path \<subseteq> set (keys ls) \<longrightarrow>
      compute_path_distance_double py_sum ls path =
        Inr (if path = [] then Finite 0
             else fsub (py_sum (map (double_length_of ls) path))
                    (fadd (fhalf (double_length_of ls (hd path)))
                          (fhalf (double_length_of ls (last path))))))
   \<and> (map_of ls x = Some d \<and> length_link d = Finite m \<and> is_double m
        \<and> py_sum [Finite m] = Finite m \<longrightarrow>
        compute_path_distance_double py_sum ls [x] =
          Inr (Finite (if even m then 0 else if even (m div 2) then 1 else - 1)))
   \<and> compute_path_distance_double py_sum ls [] = Inr (Finite 0)
   \<and> (py_sum [double_of_nat 10, double_of_nat 20, double_of_nat 30] = double_of_nat 60 \<longrightarrow>
        compute_path_distance_double py_sum chain_links_double [''A'', ''B'', ''C'']
          = Inr (double_of_nat 40))"
proof (intro conjI impI)
  assume sub: "set path \<subseteq> set (keys ls)"
  show "compute_path_distance_double py_sum ls path =
        Inr (if path = [] then Finite 0
             else fsub (py_sum (map (double_length_of ls) path))
                    (fadd (fhalf (double_length_of ls (hd path)))
                          (fhalf (double_length_of ls (last path)))))"
  proof (cases "path = []")
    case True
    then show ?thesis by (simp add: compute_path_distance_double_def)
  next
    case False
    then show ?thesis
      using link_lengths_loaded_double [OF sub]
      by (simp add: compute_path_distance_double_def hd_map last_map)
  qed
next
  assume a: "map_of ls x = Some d \<and> length_link d = Finite m \<and> is_double m
             \<and> py_sum [Finite m] = Finite m"
  then have "compute_path_distance_double py_sum ls [x]
             = Inr (fsub (Finite m) (fadd (fhalf (Finite m)) (fhalf (Finite m))))"
    by (simp add: compute_path_distance_double_def)
  also have "fsub (Finite m) (fadd (fhalf (Finite m)) (fhalf (Finite m)))
             = Finite (if even m then 0 else if even (m div 2) then 1 else - 1)"
    using a by (intro one_link_distance) simp
  finally show "compute_path_distance_double py_sum ls [x] =
          Inr (Finite (if even m then 0 else if even (m div 2) then 1 else - 1))" .
next
  show "compute_path_distance_double py_sum ls [] = Inr (Finite 0)"
    by (simp add: compute_path_distance_double_def)
next
  assume s: "py_sum [double_of_nat 10, double_of_nat 20, double_of_nat 30] = double_of_nat 60"
  have h1: "fhalf (double_of_nat 10) = double_of_nat 5"
    using fhalf_double_of_nat [of 5] by simp
  have h2: "fhalf (double_of_nat 30) = double_of_nat 15"
    using fhalf_double_of_nat [of 15] by simp
  have a: "fadd (double_of_nat 5) (double_of_nat 15) = double_of_nat 20"
    using fadd_double_of_nat [of 5 15] by simp
  have b: "fsub (double_of_nat 60) (double_of_nat 20) = double_of_nat 40"
    using fsub_double_of_nat [of 20 60] by simp
  have "link_lengths chain_links_double [''A'', ''B'', ''C'']
        = Inr [double_of_nat 10, double_of_nat 20, double_of_nat 30]"
    by (simp add: chain_links_double_def)
  then show "compute_path_distance_double py_sum chain_links_double [''A'', ''B'', ''C'']
          = Inr (double_of_nat 40)"
    by (simp add: compute_path_distance_double_def s h1 h2 a b)
qed

theorem compute_path_distance_double_formula_witness:
  "set [''A'', ''B''] \<subseteq> set (keys chain_links_double)
   \<and> compute_path_distance_double sum_left chain_links_double [''A'', ''B'']
       = Inr (double_of_nat 15)
   \<and> map_of tiny_link ''X''
       = Some \<lparr>id_link = ''X'', start_node = ''n1'', end_node = ''n2'', length_link = Finite 1\<rparr>
   \<and> is_double 1
   \<and> sum_left [Finite 1] = Finite 1
   \<and> compute_path_distance_double sum_left tiny_link [''X''] = Inr (Finite 1)
   \<and> sum_left [double_of_nat 10, double_of_nat 20, double_of_nat 30] = double_of_nat 60
   \<and> compute_path_distance_double sum_left chain_links_double [''A'', ''B'', ''C'']
       = Inr (double_of_nat 40)"
proof -
  have sub: "set [''A'', ''B''] \<subseteq> set (keys chain_links_double)"
    by (simp add: keys_def chain_links_double_def)
  have lens: "map (double_length_of chain_links_double) [''A'', ''B'']
              = [double_of_nat 10, double_of_nat 20]"
    by (simp add: double_length_of_def chain_links_double_def)
  have s2: "sum_left [double_of_nat 10, double_of_nat 20] = double_of_nat 30"
    unfolding sum_left_def foldl.simps double_of_nat_0 [symmetric]
    by (simp add: fadd_double_of_nat)
  have s3: "sum_left [double_of_nat 10, double_of_nat 20, double_of_nat 30] = double_of_nat 60"
    unfolding sum_left_def foldl.simps double_of_nat_0 [symmetric]
    by (simp add: fadd_double_of_nat)
  have h: "fadd (fhalf (double_of_nat 10)) (fhalf (double_of_nat 20)) = double_of_nat 15"
    using fhalf_double_of_nat [of 5] fhalf_double_of_nat [of 10] fadd_double_of_nat [of 5 10]
    by simp
  have d: "fsub (double_of_nat 30) (double_of_nat 15) = double_of_nat 15"
    using fsub_double_of_nat [of 15 30] by simp
  have lk: "map_of tiny_link ''X''
       = Some \<lparr>id_link = ''X'', start_node = ''n1'', end_node = ''n2'', length_link = Finite 1\<rparr>"
    by (simp add: tiny_link_def)
  have one: "is_double 1"
    by (rule is_double_small) simp
  have s1: "sum_left [Finite 1] = Finite 1"
    using one by (rule sum_left_one)
  show ?thesis
    using compute_path_distance_double_formula
            [of "[''A'', ''B'']" chain_links_double sum_left]
          compute_path_distance_double_formula
            [of "[]" tiny_link sum_left "''X''"
                "\<lparr>id_link = ''X'', start_node = ''n1'', end_node = ''n2'', length_link = Finite 1\<rparr>" 1]
          sub lens s2 s3 h d lk one s1
    by simp
qed

section \<open>Termination of the path enumerator\<close>

text \<open>
  With at least as much fuel as the entries of the queue plus the directed node pairs not
  yet visited, the bounded loop finishes, with the result of \<^const>\<open>bfs_loop\<close>.
\<close>

lemma bfs_loop_fuel_enough:
  "length q + card (set (graph_edges g) - vis) \<le> fuel \<Longrightarrow>
   bfs_loop_fuel fuel g e q vis found = Some (bfs_loop g e q vis found)"
proof (induction g e q vis found arbitrary: fuel rule: bfs_loop.induct)
  case (1 graph end_link visited found)
  show ?case by simp
next
  case (2 graph end_link current_node path queue visited found)
  from "2.prems" obtain k where fuel: "fuel = Suc k"
    by (cases fuel) auto
  show ?case
  proof (cases "path = []")
    case True
    then show ?thesis by (simp add: fuel)
  next
    case ne: False
    show ?thesis
    proof (cases "last path = end_link")
      case True
      from "2.prems" fuel have "length queue + card (set (graph_edges graph) - visited) \<le> k"
        by simp
      from "2.IH"(1) [OF ne True this] ne True show ?thesis
        by (simp add: fuel)
    next
      case False
      obtain queue' visited' where
        ex: "expand current_node path (graph_get_list graph current_node) (queue, visited) = (queue', visited')"
        by (cases "expand current_node path (graph_get_list graph current_node) (queue, visited)")
      then have "length queue' + card (set (graph_edges graph) - visited')
               = length queue + card (set (graph_edges graph) - visited)"
        by (rule expand_measure) (simp_all add: graph_get_list_edges)
      with "2.prems" fuel have "length queue' + card (set (graph_edges graph) - visited') \<le> k"
        by simp
      from "2.IH"(2) [OF ne False ex [symmetric] this] ne False ex show ?thesis
        by (simp add: fuel)
    qed
  qed
qed

lemma graph_edges_Nil: "graph_edges [] = []"
  by (simp add: graph_edges_def)

lemma length_graph_edges_Cons:
  "length (graph_edges ((n, adj) # g)) = length adj + length (graph_edges g)"
  by (simp add: graph_edges_def)

lemma graph_edges_update_present:
  "n \<in> set (keys g) \<Longrightarrow>
   length (graph_edges (AList.update n (graph_get_list g n @ [e]) g)) = Suc (length (graph_edges g))"
proof (induction g)
  case Nil
  then show ?case by (simp add: keys_def)
next
  case (Cons p g)
  obtain m adj where p: "p = (m, adj)" by (cases p)
  show ?case
  proof (cases "m = n")
    case True
    then show ?thesis
      by (simp add: p length_graph_edges_Cons graph_get_list_def)
  next
    case False
    with Cons.prems p have "n \<in> set (keys g)" by (simp add: keys_def)
    from Cons.IH [OF this] False show ?thesis
      by (simp add: p length_graph_edges_Cons graph_get_list_def)
  qed
qed

lemma graph_edges_update_empty:
  "length (graph_edges (AList.update n [] g)) = length (graph_edges g)" if "n \<notin> set (keys g)"
  using that by (induction g) (auto simp: keys_def length_graph_edges_Cons graph_edges_def)

lemma length_graph_edges_append:
  "length (graph_edges (graph_append g n e)) = Suc (length (graph_edges g))"
proof (cases "n \<in> set (keys g)")
  case True
  then show ?thesis
    by (simp add: graph_append_def graph_edges_update_present)
next
  case False
  let ?g = "AList.update n [] g"
  have "n \<in> set (keys ?g)"
    by (simp add: keys_def update_keys)
  then have "length (graph_edges (AList.update n (graph_get_list ?g n @ [e]) ?g)) = Suc (length (graph_edges ?g))"
    by (rule graph_edges_update_present)
  with False show ?thesis
    by (simp add: graph_append_def graph_edges_update_empty Let_def)
qed

lemma length_graph_edges_foldl:
  "length (graph_edges (foldl (\<lambda>graph link.
              graph_append
                (graph_append graph (start_node link) (end_node link, id_link link))
                (end_node link) (start_node link, id_link link)) g vs)) = length (graph_edges g) + 2 * length vs"
  by (induction vs arbitrary: g) (simp_all add: length_graph_edges_append)

lemma length_graph_edges_build: "length (graph_edges (build_graph ls)) = 2 * length ls"
  by (simp add: build_graph_def length_graph_edges_foldl dict_values_def graph_edges_Nil)

lemma bfs_loop_fuel_start:
  "bfs_loop_fuel (2 + card (set (graph_edges g))) g e (bfs_start d s) {} [] = Some (bfs_loop g e (bfs_start d s) {} [])"
  by (rule bfs_loop_fuel_enough) (simp add: bfs_start_def)

text \<open>
  Claim C1.  \<^verbatim>\<open>bfs_paths\<close> terminates on every graph, cyclic or not: the loop ends
  after at most two iterations (the two entries the queue starts with) plus one iteration
  for each directed node pair of the graph, since every entry added to the queue marks a
  pair that was not visited before.  For the graph built from the links this is at most
  two iterations plus two for each link.
\<close>

theorem bfs_paths_terminates:
  "bfs_paths_fuel (2 + card (set (graph_edges g))) ls g s e = Some (bfs_paths ls g s e)
   \<and> bfs_paths_fuel (2 + 2 * length ls) ls (build_graph ls) s e
       = Some (bfs_paths ls (build_graph ls) s e)"
proof (cases "map_of ls s")
  case None
  then show ?thesis
    by (simp add: bfs_paths_fuel_def bfs_paths_def)
next
  case (Some d)
  have "card (set (graph_edges (build_graph ls))) \<le> 2 * length ls"
    using card_length [of "graph_edges (build_graph ls)"] by (simp add: length_graph_edges_build)
  then have "bfs_loop_fuel (2 + 2 * length ls) (build_graph ls) e (bfs_start d s) {} []
               = Some (bfs_loop (build_graph ls) e (bfs_start d s) {} [])"
    by (intro bfs_loop_fuel_enough) (simp add: bfs_start_def)
  with Some bfs_loop_fuel_start [of g e d s] show ?thesis
    by (simp only: bfs_paths_fuel_def bfs_paths_def option.case simp_thms)
qed

section \<open>Paths found by the enumerator\<close>

lemma graph_links_Nil: "graph_links [] = {}"
  by (simp add: graph_links_def)

lemma graph_links_Cons: "graph_links ((n, adj) # g) = snd ` set adj \<union> graph_links g"
  by (simp add: graph_links_def)

lemma graph_links_update:
  "graph_links (AList.update n adj g) \<subseteq> snd ` set adj \<union> graph_links g"
proof (induction g)
  case Nil
  show ?case by (simp add: graph_links_Cons graph_links_Nil)
next
  case (Cons p g)
  obtain m adj' where p: "p = (m, adj')" by (cases p)
  show ?case
  proof (cases "m = n")
    case True
    then show ?thesis
      by (simp add: p graph_links_Cons) blast
  next
    case False
    with Cons.IH show ?thesis
      by (simp add: p graph_links_Cons) blast
  qed
qed

lemma graph_get_list_links: "snd ` set (graph_get_list g n) \<subseteq> graph_links g"
proof (cases "map_of g n")
  case None
  then show ?thesis by (simp add: graph_get_list_def)
next
  case (Some adj)
  then have "(n, adj) \<in> set g" by (rule map_of_SomeD)
  with Some show ?thesis
    by (force simp: graph_get_list_def graph_links_def)
qed

lemma graph_links_append: "graph_links (graph_append g n e) \<subseteq> insert (snd e) (graph_links g)"
proof -
  define g' where "g' = (if n \<notin> set (keys g) then AList.update n [] g else g)"
  have 1: "graph_links g' \<subseteq> graph_links g"
    using graph_links_update [of n "[]" g] by (auto simp: g'_def)
  have "graph_links (graph_append g n e) \<subseteq> snd ` set (graph_get_list g' n @ [e]) \<union> graph_links g'"
    unfolding graph_append_def Let_def g'_def by (rule graph_links_update)
  then have "graph_links (graph_append g n e)
                  \<subseteq> snd ` set (graph_get_list g' n) \<union> {snd e} \<union> graph_links g'"
    by (simp add: Un_commute insert_commute)
  with graph_get_list_links [of g' n] 1 show ?thesis by blast
qed

lemma graph_links_foldl:
  "graph_links (foldl (\<lambda>graph link.
              graph_append
                (graph_append graph (start_node link) (end_node link, id_link link))
                (end_node link) (start_node link, id_link link)) g vs)
     \<subseteq> graph_links g \<union> id_link ` set vs"
proof (induction vs arbitrary: g)
  case Nil
  show ?case by simp
next
  case (Cons v vs)
  let ?g1 = "graph_append g (start_node v) (end_node v, id_link v)"
  let ?g2 = "graph_append ?g1 (end_node v) (start_node v, id_link v)"
  have a: "graph_links ?g2 \<subseteq> insert (id_link v) (graph_links ?g1)"
    using graph_links_append [of ?g1 "end_node v" "(start_node v, id_link v)"] by simp
  have b: "graph_links ?g1 \<subseteq> insert (id_link v) (graph_links g)"
    using graph_links_append [of g "start_node v" "(end_node v, id_link v)"] by simp
  from a b have c: "graph_links ?g2 \<subseteq> insert (id_link v) (graph_links g)"
    by blast
  have "graph_links (foldl (\<lambda>graph link.
              graph_append
                (graph_append graph (start_node link) (end_node link, id_link link))
                (end_node link) (start_node link, id_link link)) ?g2 vs)
          \<subseteq> graph_links ?g2 \<union> id_link ` set vs"
    by (rule Cons.IH)
  with c show ?case
    by (simp only: foldl_Cons list.set image_insert) blast
qed

lemma graph_links_build:
  assumes "links_ok ls"
  shows "graph_links (build_graph ls) \<subseteq> set (keys ls)"
proof -
  have "graph_links (build_graph ls) \<subseteq> id_link ` set (dict_values ls)"
    using graph_links_foldl [of "[]" "dict_values ls"]
    by (simp add: build_graph_def graph_links_def)
  also have "\<dots> \<subseteq> set (keys ls)"
  proof
    fix x
    assume "x \<in> id_link ` set (dict_values ls)"
    then obtain k d where kd: "(k, d) \<in> set ls" and x: "x = id_link d"
      by (auto simp: dict_values_def)
    from assms kd have "id_link d = k"
      by (auto simp: links_ok_def list_all_iff)
    with kd x show "x \<in> set (keys ls)"
      by (force simp: keys_def)
  qed
  finally show ?thesis .
qed

lemma partial_path_snoc:
  "partial_path s L p \<Longrightarrow> l \<notin> set p \<Longrightarrow> l \<in> L \<Longrightarrow> partial_path s L (p @ [l])"
  by (simp add: partial_path_def)

lemma expand_partial_paths:
  "expand cur p adj (q, vis) = (q', vis') \<Longrightarrow> partial_path s L p \<Longrightarrow> snd ` set adj \<subseteq> L \<Longrightarrow>
   list_all (\<lambda>(n, p). partial_path s L p) q \<Longrightarrow> list_all (\<lambda>(n, p). partial_path s L p) q'"
proof (induction adj arbitrary: q vis)
  case Nil
  then show ?case by simp
next
  case (Cons a adj)
  obtain nb l where a: "a = (nb, l)" by (cases a)
  from Cons.prems(3) a have l: "l \<in> L" and sub: "snd ` set adj \<subseteq> L"
    by auto
  show ?case
  proof (cases "l \<notin> set p \<and> (cur, nb) \<notin> vis")
    case True
    with Cons.prems(1) a
    have e: "expand cur p adj (q @ [(nb, p @ [l])], insert (cur, nb) vis) = (q', vis')"
      by simp
    have "list_all (\<lambda>(n, p). partial_path s L p) (q @ [(nb, p @ [l])])"
      using Cons.prems(2,4) True l by (simp add: partial_path_snoc)
    from Cons.IH [OF e Cons.prems(2) sub this] show ?thesis .
  next
    case False
    with Cons.prems(1) a have e: "expand cur p adj (q, vis) = (q', vis')"
      by auto
    from Cons.IH [OF e Cons.prems(2) sub Cons.prems(4)] show ?thesis .
  qed
qed

lemma bfs_loop_partial_paths:
  "graph_links g \<subseteq> L \<Longrightarrow>
   list_all (\<lambda>(n, p). partial_path s L p) q \<Longrightarrow>
   list_all (\<lambda>p. partial_path s L p \<and> last p = e) found \<Longrightarrow>
   \<exists>ps. bfs_loop g e q vis found = Inr ps \<and> list_all (\<lambda>p. partial_path s L p \<and> last p = e) ps"
proof (induction g e q vis found rule: bfs_loop.induct)
  case (1 graph end_link visited found)
  then show ?case by simp
next
  case (2 graph end_link current_node path queue visited found)
  from "2.prems"(2) have pp: "partial_path s L path"
    and qq: "list_all (\<lambda>(n, p). partial_path s L p) queue"
    by simp_all
  from pp have ne: "path \<noteq> []" by (simp add: partial_path_def)
  show ?case
  proof (cases "last path = end_link")
    case True
    have "list_all (\<lambda>p. partial_path s L p \<and> last p = end_link) (found @ [path])"
      using "2.prems"(3) pp True by simp
    from "2.IH"(1) [OF ne True "2.prems"(1) qq this] ne True show ?thesis by simp
  next
    case False
    obtain queue' visited' where
      ex: "expand current_node path (graph_get_list graph current_node) (queue, visited)
             = (queue', visited')"
      by (cases "expand current_node path (graph_get_list graph current_node) (queue, visited)")
    have "snd ` set (graph_get_list graph current_node) \<subseteq> L"
      using graph_get_list_links [of graph current_node] "2.prems"(1) by blast
    with ex pp have "list_all (\<lambda>(n, p). partial_path s L p) queue'"
      using qq by (rule expand_partial_paths)
    from "2.IH"(2) [OF ne False ex [symmetric] "2.prems"(1) this "2.prems"(3)] ne False ex
    show ?thesis by simp
  qed
qed

lemma bfs_paths_partial_paths:
  assumes "map_of ls s = Some d" and "graph_links g \<subseteq> L" and "s \<in> L"
  shows "\<exists>ps. bfs_paths ls g s e = Inr ps \<and> list_all (\<lambda>p. partial_path s L p \<and> last p = e) ps"
proof -
  have start: "list_all (\<lambda>(n, p). partial_path s L p) (bfs_start d s)"
    using assms(3) by (simp add: bfs_start_def partial_path_def)
  have none: "list_all (\<lambda>p. partial_path s L p \<and> last p = e) []"
    by simp
  have "\<exists>ps. bfs_loop g e (bfs_start d s) {} [] = Inr ps
          \<and> list_all (\<lambda>p. partial_path s L p \<and> last p = e) ps"
    using assms(2) start none by (rule bfs_loop_partial_paths)
  moreover have "bfs_paths ls g s e = bfs_loop g e (bfs_start d s) {} []"
    using assms(1) by (simp add: bfs_paths_def)
  ultimately show ?thesis by simp
qed

lemma links_ok_lookup: "s \<in> set (keys ls) \<Longrightarrow> \<exists>d. map_of ls s = Some d"
proof -
  assume "s \<in> set (keys ls)"
  then have "s \<in> dom (map_of ls)"
    by (simp add: keys_def dom_map_of_conv_image_fst)
  then show ?thesis by blast
qed

text \<open>
  Claim C2.  For loaded links \<open>s\<close> and \<open>e\<close>, the enumerator returns a list of paths
  without raising, and every path of the list starts with \<open>s\<close>, ends with \<open>e\<close>, consists
  of identifiers of loaded links and repeats none of them.
\<close>

theorem bfs_paths_wellformed:
  assumes "links_ok ls" and "s \<in> set (keys ls)"
  shows "\<exists>ps. bfs_paths ls (build_graph ls) s e = Inr ps
           \<and> (\<forall>p \<in> set ps. p \<noteq> [] \<and> hd p = s \<and> last p = e
                             \<and> set p \<subseteq> set (keys ls) \<and> distinct p)"
proof -
  from links_ok_lookup [OF assms(2)] obtain d where d: "map_of ls s = Some d" ..
  from bfs_paths_partial_paths [OF d graph_links_build [OF assms(1)] assms(2), of e]
  obtain ps where ps: "bfs_paths ls (build_graph ls) s e = Inr ps"
    and all: "list_all (\<lambda>p. partial_path s (set (keys ls)) p \<and> last p = e) ps"
    by (elim exE conjE)
  have "p \<noteq> [] \<and> hd p = s \<and> last p = e \<and> set p \<subseteq> set (keys ls) \<and> distinct p"
    if "p \<in> set ps" for p
  proof -
    from all that have "partial_path s (set (keys ls)) p \<and> last p = e"
      by (simp add: list_all_iff)
    then show ?thesis
      by (simp add: partial_path_def)
  qed
  then have "\<forall>p \<in> set ps. p \<noteq> [] \<and> hd p = s \<and> last p = e
                      \<and> set p \<subseteq> set (keys ls) \<and> distinct p" ..
  with ps show ?thesis by (intro exI conjI)
qed

theorem bfs_paths_wellformed_witness:
  "links_ok chain_links \<and> ''A'' \<in> set (keys chain_links)
   \<and> (\<exists>ps. bfs_paths chain_links (build_graph chain_links) ''A'' ''C'' = Inr ps
           \<and> (\<forall>p \<in> set ps. p \<noteq> [] \<and> hd p = ''A'' \<and> last p = ''C''
                             \<and> set p \<subseteq> set (keys chain_links) \<and> distinct p))"
proof -
  have a: "links_ok chain_links"
    by (simp add: links_ok_def keys_def chain_links_def)
  have b: "''A'' \<in> set (keys chain_links)"
    by (simp add: keys_def chain_links_def)
  from a b bfs_paths_wellformed [OF a b, of "''C''"] show ?thesis
    by (intro conjI)
qed

section \<open>Discovery order of the paths\<close>

text \<open>
  The queue is first in, first out: the loop takes the head and \<^const>\<open>expand\<close> appends
  at the end.  So the paths of the queue are ordered by length, none is longer than the
  head's by more than one link, and the paths found so far are no longer than the head.
\<close>

lemma expand_lengths:
  "expand cur p adj (q, vis) = (q', vis') \<Longrightarrow>
   \<exists>new. q' = q @ new \<and> list_all (\<lambda>(n, p'). length p' = Suc (length p)) new"
proof (induction adj arbitrary: q vis)
  case Nil
  then show ?case by simp
next
  case (Cons a adj)
  obtain nb l where a: "a = (nb, l)" by (cases a)
  show ?case
  proof (cases "l \<notin> set p \<and> (cur, nb) \<notin> vis")
    case True
    with Cons.prems a
    have e: "expand cur p adj (q @ [(nb, p @ [l])], insert (cur, nb) vis) = (q', vis')"
      by simp
    from Cons.IH [OF e] obtain new where
      new: "q' = (q @ [(nb, p @ [l])]) @ new" "list_all (\<lambda>(n, p'). length p' = Suc (length p)) new"
      by (elim exE conjE)
    have "q' = q @ ((nb, p @ [l]) # new)"
      using new(1) by simp
    moreover have "list_all (\<lambda>(n, p'). length p' = Suc (length p)) ((nb, p @ [l]) # new)"
      using new(2) by simp
    ultimately show ?thesis by (intro exI conjI)
  next
    case False
    with Cons.prems a have e: "expand cur p adj (q, vis) = (q', vis')"
      by auto
    from Cons.IH [OF e] show ?thesis .
  qed
qed

lemma queue_from_tail:
  "queue_from k ((n, p) # q) \<Longrightarrow> queue_from (length p) q"
  by (auto simp: queue_from_def list_all_iff)

lemma queue_from_append:
  assumes "queue_from k ((n, p) # q)" and "list_all (\<lambda>(n, p'). length p' = Suc (length p)) new"
  shows "queue_from (length p) (q @ new)"
proof -
  from assms(1) have kp: "k \<le> length p" "length p \<le> Suc k"
    and sq: "sorted (map (\<lambda>(n, p). length p) q)"
    and lo: "\<forall>x \<in> set q. length p \<le> length (snd x)"
    and hi: "\<forall>x \<in> set q. length (snd x) \<le> Suc k"
    by (auto simp: queue_from_def list_all_iff)
  from assms(2) have nw: "\<forall>x \<in> set new. length (snd x) = Suc (length p)"
    by (auto simp: list_all_iff)
  have "sorted (map (\<lambda>(n, p). length p) new)"
    using nw by (induction new) (auto simp: case_prod_beta)
  with sq have "sorted (map (\<lambda>(n, p). length p) (q @ new))"
    using hi nw kp by (auto simp: sorted_append case_prod_beta)
  moreover have "\<forall>x \<in> set (q @ new). length p \<le> length (snd x) \<and> length (snd x) \<le> Suc (length p)"
    using lo hi nw kp by auto
  ultimately show ?thesis
    by (simp add: queue_from_def list_all_iff case_prod_beta)
qed

lemma bfs_loop_sorted:
  "queue_from k q \<Longrightarrow> sorted (map length found) \<Longrightarrow> list_all (\<lambda>p. length p \<le> k) found \<Longrightarrow>
   bfs_loop g e q vis found = Inr ps \<Longrightarrow> sorted (map length ps)"
proof (induction g e q vis found arbitrary: k rule: bfs_loop.induct)
  case (1 graph end_link visited found)
  then show ?case by simp
next
  case (2 graph end_link current_node path queue visited found)
  from "2.prems"(4) have ne: "path \<noteq> []"
    by (auto split: if_splits)
  from "2.prems"(1) have kp: "k \<le> length path"
    by (simp add: queue_from_def)
  have fl: "list_all (\<lambda>p. length p \<le> length path) found"
    using "2.prems"(3) kp by (auto simp: list_all_iff)
  show ?case
  proof (cases "last path = end_link")
    case True
    have q: "queue_from (length path) queue"
      using "2.prems"(1) by (rule queue_from_tail)
    have s: "sorted (map length (found @ [path]))"
      using "2.prems"(2) fl by (auto simp: sorted_append list_all_iff)
    have l: "list_all (\<lambda>p. length p \<le> length path) (found @ [path])"
      using fl by simp
    have r: "bfs_loop graph end_link queue visited (found @ [path]) = Inr ps"
      using "2.prems"(4) ne True by simp
    from "2.IH"(1) [OF ne True q s l r] show ?thesis .
  next
    case False
    obtain queue' visited' where
      ex: "expand current_node path (graph_get_list graph current_node) (queue, visited)
             = (queue', visited')"
      by (cases "expand current_node path (graph_get_list graph current_node) (queue, visited)")
    from expand_lengths [OF ex] obtain new where
      new: "queue' = queue @ new" "list_all (\<lambda>(n, p'). length p' = Suc (length path)) new"
      by (elim exE conjE)
    have q: "queue_from (length path) queue'"
      unfolding new(1) using "2.prems"(1) new(2) by (rule queue_from_append)
    have r: "bfs_loop graph end_link queue' visited' found = Inr ps"
      using "2.prems"(4) ne False ex by simp
    from "2.IH"(2) [OF ne False ex [symmetric] q "2.prems"(2) fl r] show ?thesis .
  qed
qed

lemma build_graph_triangle:
  "build_graph triangle_links =
     [(''a'', [(''b'', ''S''), (''u'', ''R1'')]),
      (''b'', [(''a'', ''S''), (''u'', ''R2'')]),
      (''u'', [(''a'', ''R1''), (''b'', ''R2''), (''w'', ''T'')]),
      (''w'', [(''u'', ''T'')])]"
  by (simp add: build_graph_def triangle_links_def dict_values_def graph_append_def keys_def
      graph_get_list_def)

lemma bfs_paths_triangle_T_R1:
  "bfs_paths triangle_links (build_graph triangle_links) ''T'' ''R1''
     = Inr [[''T'', ''R1''], [''T'', ''R2'', ''S'', ''R1'']]"
  unfolding build_graph_triangle
  by (simp add: bfs_paths_def triangle_links_def bfs_start_def graph_get_list_def)

text \<open>
  Claim C6.  The paths that \<^verbatim>\<open>bfs_paths\<close> returns are in discovery order with a
  non-decreasing number of links, on every graph; and every discovered path is kept, not
  only the shortest: the search from \<open>T\<close> to \<open>R1\<close> in the triangle network returns a
  path of two links and then a path of four links.
\<close>

theorem bfs_paths_discovery_order:
  "(bfs_paths ls g s e = Inr ps \<longrightarrow> sorted (map length ps))
   \<and> bfs_paths triangle_links (build_graph triangle_links) ''T'' ''R1''
       = Inr [[''T'', ''R1''], [''T'', ''R2'', ''S'', ''R1'']]"
proof (intro conjI impI)
  assume r: "bfs_paths ls g s e = Inr ps"
  then obtain d where d: "map_of ls s = Some d"
    by (cases "map_of ls s") (simp_all add: bfs_paths_def)
  have q: "queue_from 1 (bfs_start d s)"
    by (simp add: queue_from_def bfs_start_def)
  have s0: "sorted (map length ([] :: string list list))"
    by simp
  have l0: "list_all (\<lambda>p. length p \<le> 1) ([] :: string list list)"
    by simp
  have "bfs_loop g e (bfs_start d s) {} [] = Inr ps"
    using r d by (simp add: bfs_paths_def)
  with q s0 l0 show "sorted (map length ps)"
    by (rule bfs_loop_sorted)
next
  show "bfs_paths triangle_links (build_graph triangle_links) ''T'' ''R1''
       = Inr [[''T'', ''R1''], [''T'', ''R2'', ''S'', ''R1'']]"
    by (rule bfs_paths_triangle_T_R1)
qed

theorem bfs_paths_discovery_order_witness:
  "bfs_paths triangle_links (build_graph triangle_links) ''T'' ''S''
     = Inr [[''T'', ''R1'', ''S''], [''T'', ''R2'', ''S'']]
   \<and> sorted (map length [[''T'', ''R1'', ''S''], [''T'', ''R2'', ''S'']])"
proof -
  have r: "bfs_paths triangle_links (build_graph triangle_links) ''T'' ''S''
     = Inr [[''T'', ''R1'', ''S''], [''T'', ''R2'', ''S'']]"
    unfolding build_graph_triangle
    by (simp add: bfs_paths_def triangle_links_def bfs_start_def graph_get_list_def)
  from bfs_paths_discovery_order [of triangle_links "build_graph triangle_links" "''T''" "''S''"
      "[[''T'', ''R1'', ''S''], [''T'', ''R2'', ''S'']]"] r
  show ?thesis by (intro conjI) simp_all
qed

section \<open>The result of the analysis\<close>

lemma update_fresh: "k \<notin> set (keys d) \<Longrightarrow> AList.update k v d = d @ [(k, v)]"
  by (induction d) (auto simp: keys_def)

lemma bfs_paths_loaded:
  assumes "links_ok ls" and "s \<in> set (keys ls)"
  shows "\<exists>ps. bfs_paths ls (build_graph ls) s e = Inr ps
           \<and> list_all (\<lambda>p. partial_path s (set (keys ls)) p \<and> last p = e) ps"
proof -
  from links_ok_lookup [OF assms(2)] obtain d where d: "map_of ls s = Some d" ..
  from d graph_links_build [OF assms(1)] assms(2) show ?thesis
    by (rule bfs_paths_partial_paths)
qed

lemma found_paths_loaded:
  assumes "links_ok ls" and "fst pr \<in> set (keys ls)"
  shows "bfs_paths ls (build_graph ls) (fst pr) (snd pr) = Inr (found_paths ls pr)"
    and "list_all (\<lambda>p. set p \<subseteq> set (keys ls)) (found_paths ls pr)"
proof -
  from bfs_paths_loaded [OF assms, of "snd pr"] obtain ps where
    ps: "bfs_paths ls (build_graph ls) (fst pr) (snd pr) = Inr ps"
    and all: "list_all (\<lambda>p. partial_path (fst pr) (set (keys ls)) p \<and> last p = snd pr) ps"
    by (elim exE conjE)
  from ps have f: "found_paths ls pr = ps"
    by (simp add: found_paths_def)
  from ps f show "bfs_paths ls (build_graph ls) (fst pr) (snd pr) = Inr (found_paths ls pr)"
    by simp
  from all f show "list_all (\<lambda>p. set p \<subseteq> set (keys ls)) (found_paths ls pr)"
    by (simp add: list_all_iff partial_path_def)
qed

lemma find_all_paths_loop_fresh:
  assumes "links_ok ls"
  shows "list_all (\<lambda>pr. fst pr \<in> set (keys ls)) prs \<Longrightarrow> distinct prs \<Longrightarrow>
         set prs \<inter> set (keys ps0) = {} \<Longrightarrow>
         find_all_paths_loop ls (build_graph ls) prs ps0
           = Inr (ps0 @ map (\<lambda>pr. (pr, found_paths ls pr)) prs)"
proof (induction prs arbitrary: ps0)
  case Nil
  show ?case by simp
next
  case (Cons pr prs)
  obtain s e where pr: "pr = (s, e)" by (cases pr)
  from Cons.prems(1) pr have s: "fst pr \<in> set (keys ls)"
    by simp
  have b: "bfs_paths ls (build_graph ls) s e = Inr (found_paths ls pr)"
    using found_paths_loaded(1) [OF assms s] by (simp add: pr)
  from Cons.prems(3) have fresh: "pr \<notin> set (keys ps0)"
    by auto
  let ?ps1 = "ps0 @ [(pr, found_paths ls pr)]"
  have u: "AList.update pr (found_paths ls pr) ps0 = ?ps1"
    using fresh by (rule update_fresh)
  have 1: "list_all (\<lambda>pr. fst pr \<in> set (keys ls)) prs" and 2: "distinct prs"
    using Cons.prems(1,2) by simp_all
  have 3: "set prs \<inter> set (keys ?ps1) = {}"
    using Cons.prems(2,3) by (auto simp: keys_def)
  have "find_all_paths_loop ls (build_graph ls) prs ?ps1
          = Inr (?ps1 @ map (\<lambda>pr. (pr, found_paths ls pr)) prs)"
    using 1 2 3 by (rule Cons.IH)
  with b u show ?case
    by (simp add: pr)
qed

lemma path_distances_loaded:
  "list_all (\<lambda>p. set p \<subseteq> set (keys ls)) ps \<Longrightarrow>
   path_distances ls ps = Inr (map (distance_of ls) ps)
   \<and> list_all2 (\<lambda>p d. compute_path_distance ls p = Inr d) ps (map (distance_of ls) ps)"
proof (induction ps)
  case Nil
  show ?case by simp
next
  case (Cons p ps)
  from Cons.prems have sub: "set p \<subseteq> set (keys ls)" by simp
  have "\<exists>d. compute_path_distance ls p = Inr d"
    using link_lengths_loaded [OF sub] by (simp add: compute_path_distance_def)
  then obtain d where d: "compute_path_distance ls p = Inr d" ..
  then have "distance_of ls p = d"
    by (simp add: distance_of_def)
  with d Cons show ?case by simp
qed

lemma shortest_distances_loop_fresh:
  "list_all (\<lambda>(pr, ps). list_all (\<lambda>p. set p \<subseteq> set (keys ls)) ps) items \<Longrightarrow>
   distinct (keys items) \<Longrightarrow> set (keys items) \<inter> set (keys dt) = {} \<Longrightarrow>
   shortest_distances_loop ls items dt
     = Inr (dt @ map (\<lambda>(pr, ps). (pr, shortest ls ps)) (filter (\<lambda>(pr, ps). ps \<noteq> []) items))"
proof (induction items arbitrary: dt)
  case Nil
  show ?case by simp
next
  case (Cons it items)
  obtain pr ps where it: "it = (pr, ps)" by (cases it)
  from Cons.prems(1) it have ok: "list_all (\<lambda>p. set p \<subseteq> set (keys ls)) ps"
    and 1: "list_all (\<lambda>(pr, ps). list_all (\<lambda>p. set p \<subseteq> set (keys ls)) ps) items"
    by simp_all
  from Cons.prems(2) it have 2: "distinct (keys items)" and nin: "pr \<notin> set (keys items)"
    by (simp_all add: keys_def)
  show ?case
  proof (cases "ps = []")
    case True
    from Cons.prems(3) have 3: "set (keys items) \<inter> set (keys dt) = {}"
      by (auto simp: keys_def)
    from Cons.IH [OF 1 2 3] True show ?thesis
      by (simp add: it)
  next
    case False
    from Cons.prems(3) it have fresh: "pr \<notin> set (keys dt)"
      by (auto simp: keys_def)
    let ?dt1 = "dt @ [(pr, shortest ls ps)]"
    have u: "AList.update pr (min_list (map (distance_of ls) ps)) dt = ?dt1"
      using fresh by (simp add: update_fresh shortest_def)
    have 3: "set (keys items) \<inter> set (keys ?dt1) = {}"
      using Cons.prems(3) nin by (auto simp: keys_def)
    from Cons.IH [OF 1 2 3] False u path_distances_loaded [OF ok] show ?thesis
      by (simp add: it)
  qed
qed

text \<open>On a list without repetition, the pairs of positions are the pairs of different elements.\<close>

lemma permutations2_distinct_eq:
  assumes "distinct xs"
  shows "permutations2 xs = concat (map (\<lambda>a. map (Pair a) (filter (\<lambda>b. b \<noteq> a) xs)) xs)"
proof -
  have inner: "map (\<lambda>j. (xs ! i, xs ! j)) (filter (\<lambda>j. j \<noteq> i) [0..<length xs])
                 = map (Pair (xs ! i)) (filter (\<lambda>b. b \<noteq> xs ! i) xs)"
    if "i < length xs" for i
  proof -
    have "filter (\<lambda>j. j \<noteq> i) [0..<length xs] = filter (\<lambda>j. xs ! j \<noteq> xs ! i) [0..<length xs]"
      using assms that by (intro filter_cong refl) (simp add: nth_eq_iff_index_eq)
    then have "map (\<lambda>j. (xs ! i, xs ! j)) (filter (\<lambda>j. j \<noteq> i) [0..<length xs])
                 = map (Pair (xs ! i)) (map ((!) xs) (filter (\<lambda>j. xs ! j \<noteq> xs ! i) [0..<length xs]))"
      by simp
    also have "map ((!) xs) (filter (\<lambda>j. xs ! j \<noteq> xs ! i) [0..<length xs])
                 = filter (\<lambda>b. b \<noteq> xs ! i) (map ((!) xs) [0..<length xs])"
      by (simp add: filter_map comp_def)
    also have "map ((!) xs) [0..<length xs] = xs"
      by (rule map_nth)
    finally show ?thesis .
  qed
  have "permutations2 xs
          = concat (map (\<lambda>i. map (Pair (xs ! i)) (filter (\<lambda>b. b \<noteq> xs ! i) xs)) [0..<length xs])"
    unfolding permutations2_def by (intro arg_cong [where f = concat] map_cong refl) (simp add: inner)
  also have "\<dots> = concat (map (\<lambda>a. map (Pair a) (filter (\<lambda>b. b \<noteq> a) xs)) (map ((!) xs) [0..<length xs]))"
    by (simp add: comp_def)
  also have "map ((!) xs) [0..<length xs] = xs"
    by (rule map_nth)
  finally show ?thesis .
qed

lemma set_permutations2:
  assumes "distinct xs"
  shows "set (permutations2 xs) = {(a, b). a \<in> set xs \<and> b \<in> set xs \<and> a \<noteq> b}"
  unfolding permutations2_distinct_eq [OF assms] by auto

lemma distinct_concat_by_first:
  "distinct xs \<Longrightarrow> (\<And>a. a \<in> set xs \<Longrightarrow> distinct (f a)) \<Longrightarrow>
   (\<And>a y. a \<in> set xs \<Longrightarrow> y \<in> set (f a) \<Longrightarrow> fst y = a) \<Longrightarrow>
   distinct (concat (map f xs))"
proof (induction xs)
  case Nil
  show ?case by simp
next
  case (Cons a xs)
  have "distinct (concat (map f xs))"
    using Cons.prems by (intro Cons.IH) simp_all
  moreover have "distinct (f a)"
    using Cons.prems(2) by simp
  moreover have "set (f a) \<inter> set (concat (map f xs)) = {}"
  proof (rule ccontr)
    assume "set (f a) \<inter> set (concat (map f xs)) \<noteq> {}"
    then obtain y where y: "y \<in> set (f a)" and "y \<in> set (concat (map f xs))"
      by auto
    then obtain b where b: "b \<in> set xs" and yb: "y \<in> set (f b)"
      by auto
    from Cons.prems(3) [of a y] y have "fst y = a" by simp
    moreover from Cons.prems(3) [of b y] b yb have "fst y = b" by simp
    ultimately show False using Cons.prems(1) b by simp
  qed
  ultimately show ?case by simp
qed

lemma distinct_permutations2:
  assumes "distinct xs"
  shows "distinct (permutations2 xs)"
  unfolding permutations2_distinct_eq [OF assms]
proof (rule distinct_concat_by_first [OF assms])
  fix a
  show "distinct (map (Pair a) (filter (\<lambda>b. b \<noteq> a) xs))"
    using assms by (simp add: distinct_map inj_on_def)
next
  fix a y
  assume "y \<in> set (map (Pair a) (filter (\<lambda>b. b \<noteq> a) xs))"
  then show "fst y = a" by auto
qed

text \<open>
  The analysis of a dictionary of links runs without error; the path set has one entry
  for every ordered pair of different links, in the order of the pairs, and the distance
  table has the entries of the pairs with at least one path.
\<close>

lemma analyze_result:
  assumes "links_ok ls"
  shows "analyze ls = Inr \<lparr>links = ls, paths = all_paths ls, distances = all_distances ls,
                           link_indices = []\<rparr>"
proof -
  from assms have dk: "distinct (keys ls)"
    by (simp add: links_ok_def)
  have 1: "list_all (\<lambda>pr. fst pr \<in> set (keys ls)) (permutations2 (keys ls))"
    by (auto simp: list_all_iff set_permutations2 [OF dk])
  have 2: "distinct (permutations2 (keys ls))"
    using dk by (rule distinct_permutations2)
  have 3: "set (permutations2 (keys ls)) \<inter> set (keys ([] :: pathset)) = {}"
    by (simp add: keys_def)
  have f: "find_all_paths_loop ls (build_graph ls) (permutations2 (keys ls)) [] = Inr (all_paths ls)"
    using find_all_paths_loop_fresh [OF assms 1 2 3] by (simp add: all_paths_def)
  have 4: "list_all (\<lambda>(pr, ps). list_all (\<lambda>p. set p \<subseteq> set (keys ls)) ps) (all_paths ls)"
    unfolding all_paths_def list_all_iff
  proof (intro ballI)
    fix x
    assume "x \<in> set (map (\<lambda>pr. (pr, found_paths ls pr)) (permutations2 (keys ls)))"
    then obtain pr where pr: "pr \<in> set (permutations2 (keys ls))" and x: "x = (pr, found_paths ls pr)"
      by auto
    from pr 1 have "fst pr \<in> set (keys ls)"
      by (simp add: list_all_iff)
    from found_paths_loaded(2) [OF assms this] x
    show "case x of (pr, ps) \<Rightarrow> \<forall>p \<in> set ps. set p \<subseteq> set (keys ls)"
      by (simp add: list_all_iff)
  qed
  have k: "keys (all_paths ls) = permutations2 (keys ls)"
    by (simp add: all_paths_def keys_def comp_def)
  have 5: "distinct (keys (all_paths ls))"
    using 2 k by simp
  have 6: "set (keys (all_paths ls)) \<inter> set (keys ([] :: distance_table)) = {}"
    by (simp add: keys_def)
  have d: "shortest_distances_loop ls (all_paths ls) [] = Inr (all_distances ls)"
    using shortest_distances_loop_fresh [OF 4 5 6] by (simp add: all_distances_def)
  show ?thesis
    by (simp add: analyze_def find_all_paths_def new_analyzer_def f compute_shortest_distances_def d)
qed

section \<open>The distance table\<close>

lemma all_distances_alt:
  "all_distances ls =
     map (\<lambda>pr. (pr, shortest ls (found_paths ls pr)))
       (filter (\<lambda>pr. found_paths ls pr \<noteq> []) (permutations2 (keys ls)))"
  by (simp add: all_distances_def all_paths_def filter_map comp_def)

lemma map_of_all_paths:
  "map_of (all_paths ls) pr
     = (if pr \<in> set (permutations2 (keys ls)) then Some (found_paths ls pr) else None)"
  by (simp add: all_paths_def map_of_map_restrict restrict_map_def)

lemma map_of_all_distances:
  "map_of (all_distances ls) pr
     = (if pr \<in> set (permutations2 (keys ls)) \<and> found_paths ls pr \<noteq> []
        then Some (shortest ls (found_paths ls pr)) else None)"
  by (simp add: all_distances_alt map_of_map_restrict restrict_map_def)

text \<open>
  Claim C4.  For every ordered pair of different loaded links the analysis raises no
  error, the path set holds the paths of the enumerator for the pair, and the distance
  table has an entry for the pair exactly when there is at least one path; the entry is
  the minimum of the distances of the paths.
\<close>

theorem shortest_distance_entries:
  assumes "links_ok ls" and "a \<in> set (keys ls)" and "b \<in> set (keys ls)" and "a \<noteq> b"
  shows "\<exists>an ps. analyze ls = Inr an
           \<and> bfs_paths ls (build_graph ls) a b = Inr ps
           \<and> map_of (paths an) (a, b) = Some ps
           \<and> (if ps = [] then map_of (distances an) (a, b) = None
               else \<exists>ds. list_all2 (\<lambda>p d. compute_path_distance ls p = Inr d) ps ds
                      \<and> map_of (distances an) (a, b) = Some (Min (set ds)))"
proof -
  let ?an = "\<lparr>links = ls, paths = all_paths ls, distances = all_distances ls, link_indices = []\<rparr>"
  let ?ps = "found_paths ls (a, b)"
  let ?ds = "map (distance_of ls) ?ps"
  from assms(1) have dk: "distinct (keys ls)"
    by (simp add: links_ok_def)
  have mem: "(a, b) \<in> set (permutations2 (keys ls))"
    using assms(2,3,4) by (simp add: set_permutations2 [OF dk])
  have an: "analyze ls = Inr ?an"
    using assms(1) by (rule analyze_result)
  have a': "fst (a, b) \<in> set (keys ls)"
    using assms(2) by simp
  have bfs: "bfs_paths ls (build_graph ls) a b = Inr ?ps"
    using found_paths_loaded(1) [OF assms(1) a'] by simp
  have p: "map_of (paths ?an) (a, b) = Some ?ps"
    using mem by (simp add: map_of_all_paths)
  have d: "if ?ps = [] then map_of (distances ?an) (a, b) = None
           else \<exists>ds. list_all2 (\<lambda>p d. compute_path_distance ls p = Inr d) ?ps ds
                  \<and> map_of (distances ?an) (a, b) = Some (Min (set ds))"
  proof (cases "?ps = []")
    case True
    then show ?thesis by (simp add: map_of_all_distances)
  next
    case False
    have l: "list_all2 (\<lambda>p d. compute_path_distance ls p = Inr d) ?ps ?ds"
      using path_distances_loaded [OF found_paths_loaded(2) [OF assms(1) a']] by (rule conjunct2)
    have "shortest ls ?ps = Min (set ?ds)"
      unfolding shortest_def using False by (intro min_list_Min) simp
    with mem False have m: "map_of (distances ?an) (a, b) = Some (Min (set ?ds))"
      by (simp add: map_of_all_distances)
    have "\<exists>ds. list_all2 (\<lambda>p d. compute_path_distance ls p = Inr d) ?ps ds
                  \<and> map_of (distances ?an) (a, b) = Some (Min (set ds))"
      using l m by (intro exI conjI)
    with False show ?thesis
      by (simp only: if_False)
  qed
  from an bfs p d show ?thesis
    by (intro exI conjI)
qed

theorem shortest_distance_entries_witness:
  "links_ok chain_links \<and> ''A'' \<in> set (keys chain_links) \<and> ''C'' \<in> set (keys chain_links)
   \<and> ''A'' \<noteq> ''C''
   \<and> (\<exists>an ps. analyze chain_links = Inr an
           \<and> bfs_paths chain_links (build_graph chain_links) ''A'' ''C'' = Inr ps
           \<and> map_of (paths an) (''A'', ''C'') = Some ps
           \<and> (if ps = [] then map_of (distances an) (''A'', ''C'') = None
               else \<exists>ds. list_all2 (\<lambda>p d. compute_path_distance chain_links p = Inr d) ps ds
                      \<and> map_of (distances an) (''A'', ''C'') = Some (Min (set ds))))"
proof -
  have 1: "links_ok chain_links"
    by (simp add: links_ok_def keys_def chain_links_def)
  have 2: "''A'' \<in> set (keys chain_links)" and 3: "''C'' \<in> set (keys chain_links)"
    by (simp_all add: keys_def chain_links_def)
  have 4: "''A'' \<noteq> ''C''"
    by simp
  from 1 2 3 4 shortest_distance_entries [OF 1 2 3 4] show ?thesis
    by (intro conjI)
qed

section \<open>Frames\<close>

lemma get_loc_Some: "get_loc xs x = Some i \<Longrightarrow> i < length xs \<and> xs ! i = x"
proof (induction xs arbitrary: i)
  case Nil
  then show ?case by simp
next
  case (Cons y ys)
  show ?case
  proof (cases "x = y")
    case True
    with Cons.prems show ?thesis by simp
  next
    case False
    with Cons.prems obtain j where j: "get_loc ys x = Some j" and i: "i = Suc j"
      by auto
    from Cons.IH [OF j] i show ?thesis by simp
  qed
qed

lemma get_loc_None: "get_loc xs x = None \<longleftrightarrow> x \<notin> set xs"
  by (induction xs) auto

lemma get_loc_mem: "x \<in> set xs \<Longrightarrow> \<exists>i. get_loc xs x = Some i"
  using get_loc_None [of xs x] by (cases "get_loc xs x") simp_all

lemma get_loc_nth: "distinct xs \<Longrightarrow> i < length xs \<Longrightarrow> get_loc xs (xs ! i) = Some i"
proof (induction xs arbitrary: i)
  case Nil
  then show ?case by simp
next
  case (Cons y ys)
  show ?case
  proof (cases i)
    case 0
    then show ?thesis by simp
  next
    case (Suc j)
    with Cons.prems have j: "j < length ys" and d: "distinct ys" and ny: "y \<notin> set ys"
      by simp_all
    from j ny have "ys ! j \<noteq> y"
      using nth_mem by fastforce
    with Cons.IH [OF d j] Suc show ?thesis by simp
  qed
qed

lemma get_loc_upt: "i < n \<Longrightarrow> get_loc [0..<n] i = Some i"
  using get_loc_nth [of "[0..<n]" i] by simp

lemma wf_DataFrame: "distinct idx \<Longrightarrow> distinct cols \<Longrightarrow> wf_frame (DataFrame v idx cols)"
  by (simp add: wf_frame_def DataFrame_def list_all_iff)

lemma at_get_DataFrame:
  "r \<in> set idx \<Longrightarrow> c \<in> set cols \<Longrightarrow> at_get (DataFrame v idx cols) r c = Some v"
proof -
  assume r: "r \<in> set idx" and c: "c \<in> set cols"
  from get_loc_mem [OF r] obtain i where i: "get_loc idx r = Some i" ..
  from get_loc_mem [OF c] obtain j where j: "get_loc cols c = Some j" ..
  from get_loc_Some [OF i] get_loc_Some [OF j] i j show ?thesis
    by (simp add: at_get_def DataFrame_def)
qed

lemma set_cell_nth:
  "i < length cs \<Longrightarrow> j < length (cs ! i) \<Longrightarrow> i' < length cs \<Longrightarrow>
   set_cell cs i j v ! i' ! j' = (if i' = i \<and> j' = j then v else cs ! i' ! j')"
  by (simp add: set_cell_def nth_list_update)

lemma set_cell_length: "length (set_cell cs i j v) = length cs"
  by (simp add: set_cell_def)

lemma set_cell_rows:
  assumes "list_all (\<lambda>row. length row = n) cs"
  shows "list_all (\<lambda>row. length row = n) (set_cell cs i j v)"
proof (cases "i < length cs")
  case True
  with assms have "length ((cs ! i)[j := v]) = n"
    by (simp add: list_all_iff)
  moreover have "set (cs[i := (cs ! i)[j := v]]) \<subseteq> insert ((cs ! i)[j := v]) (set cs)"
    by (rule set_update_subset_insert)
  ultimately show ?thesis
    using assms unfolding list_all_iff set_cell_def by blast
next
  case False
  then have "cs[i := (cs ! i)[j := v]] = cs"
    by (intro list_update_beyond) simp
  with assms show ?thesis
    by (simp add: set_cell_def)
qed

lemma at_set_result:
  assumes "wf_frame f" and "get_loc (index f) r = Some i" and "get_loc (columns f) c = Some j"
  shows "at_set f r c v = Inr (f\<lparr>cells := set_cell (cells f) i j v\<rparr>)"
    and "wf_frame (f\<lparr>cells := set_cell (cells f) i j v\<rparr>)"
    and "at_get (f\<lparr>cells := set_cell (cells f) i j v\<rparr>) r' c'
           = (if r' = r \<and> c' = c then Some v else at_get f r' c')"
proof -
  let ?f' = "f\<lparr>cells := set_cell (cells f) i j v\<rparr>"
  from get_loc_Some [OF assms(2)] have i: "i < length (index f)" and ri: "index f ! i = r"
    by simp_all
  from get_loc_Some [OF assms(3)] have j: "j < length (columns f)" and cj: "columns f ! j = c"
    by simp_all
  from assms(1) have len: "length (cells f) = length (index f)"
    and rows: "list_all (\<lambda>row. length row = length (columns f)) (cells f)"
    by (simp_all add: wf_frame_def)
  from i len rows have rowi: "length (cells f ! i) = length (columns f)"
    by (simp add: list_all_iff)
  show "at_set f r c v = Inr ?f'"
    using assms(2,3) by (simp add: at_set_def set_cell_def)
  show "wf_frame ?f'"
    using assms(1) set_cell_rows [OF rows] by (simp add: wf_frame_def set_cell_length)
  show "at_get ?f' r' c' = (if r' = r \<and> c' = c then Some v else at_get f r' c')"
  proof (cases "get_loc (index f) r'")
    case None
    with assms(2) show ?thesis by (auto simp: at_get_def)
  next
    case i': (Some i')
    show ?thesis
    proof (cases "get_loc (columns f) c'")
      case None
      with assms(3) i' show ?thesis by (auto simp: at_get_def)
    next
      case j': (Some j')
      from get_loc_Some [OF i'] have i'l: "i' < length (cells f)" and ri': "index f ! i' = r'"
        by (simp_all add: len)
      from get_loc_Some [OF j'] have cj': "columns f ! j' = c'"
        by simp
      have "i' = i \<longleftrightarrow> r' = r"
      proof
        assume "i' = i"
        with ri ri' show "r' = r" by simp
      next
        assume "r' = r"
        with i' assms(2) show "i' = i" by simp
      qed
      moreover have "j' = j \<longleftrightarrow> c' = c"
      proof
        assume "j' = j"
        with cj cj' show "c' = c" by simp
      next
        assume "c' = c"
        with j' assms(3) show "j' = j" by simp
      qed
      moreover have "set_cell (cells f) i j v ! i' ! j'
                       = (if i' = i \<and> j' = j then v else cells f ! i' ! j')"
        using i j len rowi i'l by (intro set_cell_nth) simp_all
      ultimately show ?thesis
        using i' j' by (simp add: at_get_def)
    qed
  qed
qed

section \<open>Filling the matrices\<close>

lemma find_append:
  "find P (xs @ ys) = (case find P xs of None \<Rightarrow> find P ys | Some x \<Rightarrow> Some x)"
  by (induction xs) simp_all

lemma last_write_Cons:
  "last_write (it # items) r c
     = (case last_write items r c of
          None \<Rightarrow> (if fst it = (r, c) \<or> fst it = (c, r) then Some it else None)
        | Some x \<Rightarrow> Some x)"
  by (simp add: last_write_def find_append split: option.split)

lemma last_write_sym: "map_option snd (last_write items r c) = map_option snd (last_write items c r)"
proof -
  have "(\<lambda>x :: ('a \<times> 'a) \<times> real. fst x = (r, c) \<or> fst x = (c, r))
          = (\<lambda>x. fst x = (c, r) \<or> fst x = (r, c))"
    by (intro ext) (rule disj_commute)
  then show ?thesis
    by (simp add: last_write_def)
qed

lemma cell_value_sym: "cell_value items r c = cell_value items c r"
proof -
  have "(\<lambda>x :: ('a \<times> 'a) \<times> real. fst x = (r, c) \<or> fst x = (c, r))
          = (\<lambda>x. fst x = (c, r) \<or> fst x = (r, c))"
    by (intro ext) (rule disj_commute)
  then show ?thesis
    by (simp add: cell_value_def last_write_def)
qed


text \<open>
  The identifier-indexed matrix after the loop: every cell with labels of the frame
  holds the last value written into it, or its initial value.
\<close>

lemma fill_id_matrix_result:
  "wf_frame m \<Longrightarrow>
   list_all (\<lambda>((a, b), d). a \<in> set (index m) \<and> b \<in> set (index m)
                          \<and> a \<in> set (columns m) \<and> b \<in> set (columns m)) items \<Longrightarrow>
   \<exists>m'. fill_id_matrix m items = Inr m' \<and> wf_frame m'
        \<and> index m' = index m \<and> columns m' = columns m
        \<and> (\<forall>r c. at_get m' r c
                    = (case last_write items r c of None \<Rightarrow> at_get m r c | Some (k, d) \<Rightarrow> Some d))"
proof (induction items arbitrary: m)
  case Nil
  then show ?case by (simp add: last_write_def)
next
  case (Cons it items)
  obtain a b d where it: "it = ((a, b), d)" by (cases it) auto
  from Cons.prems(2) it have ai: "a \<in> set (index m)" and bi: "b \<in> set (index m)"
    and ac: "a \<in> set (columns m)" and bc: "b \<in> set (columns m)"
    by simp_all
  from get_loc_mem [OF ai] obtain ia where ia: "get_loc (index m) a = Some ia" ..
  from get_loc_mem [OF bi] obtain ib where ib: "get_loc (index m) b = Some ib" ..
  from get_loc_mem [OF ac] obtain ja where ja: "get_loc (columns m) a = Some ja" ..
  from get_loc_mem [OF bc] obtain jb where jb: "get_loc (columns m) b = Some jb" ..
  define m1 where "m1 = m\<lparr>cells := set_cell (cells m) ia jb d\<rparr>"
  have s1: "at_set m a b d = Inr m1" and w1: "wf_frame m1"
    and g1: "\<And>r c. at_get m1 r c = (if r = a \<and> c = b then Some d else at_get m r c)"
    unfolding m1_def using at_set_result [OF Cons.prems(1) ia jb] by simp_all
  have l1: "index m1 = index m" "columns m1 = columns m"
    by (simp_all add: m1_def)
  define m2 where "m2 = m1\<lparr>cells := set_cell (cells m1) ib ja d\<rparr>"
  have ib1: "get_loc (index m1) b = Some ib" and ja1: "get_loc (columns m1) a = Some ja"
    using ib ja by (simp_all add: l1)
  have s2: "at_set m1 b a d = Inr m2" and w2: "wf_frame m2"
    and g2: "\<And>r c. at_get m2 r c = (if r = b \<and> c = a then Some d else at_get m1 r c)"
    unfolding m2_def using at_set_result [OF w1 ib1 ja1] by simp_all
  have l2: "index m2 = index m" "columns m2 = columns m"
    by (simp_all add: m2_def l1)
  have ok: "list_all (\<lambda>((a, b), d). a \<in> set (index m2) \<and> b \<in> set (index m2)
                          \<and> a \<in> set (columns m2) \<and> b \<in> set (columns m2)) items"
    using Cons.prems(2) by (simp add: l2)
  from Cons.IH [OF w2 ok] obtain m' where
    f: "fill_id_matrix m2 items = Inr m'" and w: "wf_frame m'"
    and l: "index m' = index m2" "columns m' = columns m2"
    and g: "\<forall>r c. at_get m' r c
                    = (case last_write items r c of None \<Rightarrow> at_get m2 r c | Some (k, d) \<Rightarrow> Some d)"
    by (elim exE conjE)
  have f': "fill_id_matrix m (it # items) = Inr m'"
    using s1 s2 f by (simp add: it)
  have g': "at_get m' r c
              = (case last_write (it # items) r c of None \<Rightarrow> at_get m r c | Some (k, d) \<Rightarrow> Some d)"
    for r c
  proof (cases "last_write items r c")
    case None
    with g have 1: "at_get m' r c = at_get m2 r c"
      by simp
    have 2: "at_get m2 r c
               = (if r = b \<and> c = a then Some d else if r = a \<and> c = b then Some d else at_get m r c)"
      by (simp only: g2 g1)
    have 3: "last_write (it # items) r c
               = (if (a, b) = (r, c) \<or> (a, b) = (c, r) then Some ((a, b), d) else None)"
      using None by (simp add: last_write_Cons it)
    show ?thesis
    proof (cases "(a, b) = (r, c) \<or> (a, b) = (c, r)")
      case True
      then have "(r = b \<and> c = a) \<or> (r = a \<and> c = b)"
        by (simp add: eq_commute) blast
      with True show ?thesis
        unfolding 1 2 3 by (simp only: if_True option.case prod.case split: if_split) blast
    next
      case False
      then have "\<not> (r = b \<and> c = a)" and "\<not> (r = a \<and> c = b)"
        by auto
      with False show ?thesis
        unfolding 1 2 3 by (simp only: if_False option.case)
    qed
  next
    case (Some x)
    with g show ?thesis
      by (simp add: last_write_Cons)
  qed
  have i': "index m' = index m" and c': "columns m' = columns m"
    using l l2 by simp_all
  have "\<forall>r c. at_get m' r c
                 = (case last_write (it # items) r c of None \<Rightarrow> at_get m r c | Some (k, d) \<Rightarrow> Some d)"
  proof (intro allI)
    fix r c
    show "at_get m' r c
            = (case last_write (it # items) r c of None \<Rightarrow> at_get m r c | Some (k, d) \<Rightarrow> Some d)"
      by (rule g')
  qed
  with f' w i' c' show ?case
    by (intro exI [of _ m'] conjI)
qed

lemma at_set_InrD:
  assumes "at_set f r c v = Inr f'"
  shows "\<exists>i j. get_loc (index f) r = Some i \<and> get_loc (columns f) c = Some j
           \<and> f' = f\<lparr>cells := set_cell (cells f) i j v\<rparr>"
proof (cases "get_loc (index f) r")
  case None
  with assms show ?thesis by (simp add: at_set_def)
next
  case i: (Some i)
  show ?thesis
  proof (cases "get_loc (columns f) c")
    case None
    with assms i show ?thesis by (simp add: at_set_def)
  next
    case j: (Some j)
    with assms i have "f' = f\<lparr>cells := set_cell (cells f) i j v\<rparr>"
      by (simp add: at_set_def set_cell_def)
    with i j show ?thesis by simp
  qed
qed

text \<open>\<^verbatim>\<open>id_to_index\<close> maps every identifier to its position in the sorted list.\<close>

lemma id_to_index_foldl:
  "distinct xs \<Longrightarrow>
   map_of (foldl (\<lambda>d (idx, link_id). AList.update link_id idx d) d0 (enumerate n xs)) l
     = (case get_loc xs l of None \<Rightarrow> map_of d0 l | Some i \<Rightarrow> Some (n + i))"
proof (induction xs arbitrary: d0 n)
  case Nil
  show ?case by simp
next
  case (Cons x xs)
  from Cons.prems have d: "distinct xs" and nx: "x \<notin> set xs"
    by simp_all
  have "map_of (foldl (\<lambda>d (idx, link_id). AList.update link_id idx d) d0 (enumerate n (x # xs))) l
          = (case get_loc xs l of None \<Rightarrow> map_of (AList.update x n d0) l | Some i \<Rightarrow> Some (Suc n + i))"
    using Cons.IH [OF d, of "AList.update x n d0" "Suc n"] by simp
  also have "\<dots> = (case get_loc (x # xs) l of None \<Rightarrow> map_of d0 l | Some i \<Rightarrow> Some (n + i))"
  proof (cases "l = x")
    case True
    with nx have "get_loc xs l = None"
      by (simp add: get_loc_None)
    with True show ?thesis
      by (simp add: update_conv')
  next
    case False
    then show ?thesis
      by (cases "get_loc xs l") (simp_all add: update_conv')
  qed
  finally show ?case .
qed

lemma make_id_to_index_lookup:
  "distinct ul \<Longrightarrow> map_of (make_id_to_index ul) l = get_loc ul l"
  using id_to_index_foldl [of ul "[]" 0 l]
  by (cases "get_loc ul l") (simp_all add: make_id_to_index_def)

text \<open>
  The two loops of \<^verbatim>\<open>create_distance_matrices\<close> write the same values at the same
  positions: the index-indexed matrix has the cells of the identifier-indexed matrix.
\<close>

lemma fill_index_matrix_parallel:
  assumes "\<And>l. map_of iti l = get_loc ul l"
  shows "index m = ul \<Longrightarrow> columns m = ul \<Longrightarrow>
         index mi = [0..<length ul] \<Longrightarrow> columns mi = [0..<length ul] \<Longrightarrow>
         cells mi = cells m \<Longrightarrow> fill_id_matrix m items = Inr m' \<Longrightarrow>
         \<exists>mi'. fill_index_matrix iti mi items = Inr mi'
              \<and> index mi' = [0..<length ul] \<and> columns mi' = [0..<length ul]
              \<and> cells mi' = cells m'"
proof (induction items arbitrary: m mi)
  case Nil
  then show ?case by simp
next
  case (Cons it items)
  obtain a b d where it: "it = ((a, b), d)" by (cases it) auto
  from Cons.prems(6) obtain m1 where s1: "at_set m a b d = Inr m1"
    by (cases "at_set m a b d") (simp_all add: it)
  with Cons.prems(6) obtain m2 where s2: "at_set m1 b a d = Inr m2"
    by (cases "at_set m1 b a d") (simp_all add: it)
  from Cons.prems(6) s1 s2 have f: "fill_id_matrix m2 items = Inr m'"
    by (simp add: it)
  from at_set_InrD [OF s1] obtain ia jb where
    ia: "get_loc (index m) a = Some ia" and jb: "get_loc (columns m) b = Some jb"
    and m1: "m1 = m\<lparr>cells := set_cell (cells m) ia jb d\<rparr>"
    by (elim exE conjE)
  from at_set_InrD [OF s2] obtain ib ja where
    ib: "get_loc (index m1) b = Some ib" and ja: "get_loc (columns m1) a = Some ja"
    and m2: "m2 = m1\<lparr>cells := set_cell (cells m1) ib ja d\<rparr>"
    by (elim exE conjE)
  have pa: "get_loc ul a = Some ia" and pb: "get_loc ul b = Some ib"
    using ia ib Cons.prems(1) by (simp_all add: m1)
  have eqa: "ja = ia" and eqb: "jb = ib"
    using ia ja ib jb Cons.prems(1,2) by (simp_all add: m1)
  from get_loc_Some [OF pa] have la: "ia < length ul" by simp
  from get_loc_Some [OF pb] have lb: "ib < length ul" by simp
  define mi1 where "mi1 = mi\<lparr>cells := set_cell (cells mi) ia ib d\<rparr>"
  define mi2 where "mi2 = mi1\<lparr>cells := set_cell (cells mi1) ib ia d\<rparr>"
  have t1: "at_set mi ia ib d = Inr mi1"
    using la lb Cons.prems(3,4) by (simp add: at_set_def get_loc_upt mi1_def set_cell_def)
  have t2: "at_set mi1 ib ia d = Inr mi2"
    using la lb Cons.prems(3,4) by (simp add: at_set_def get_loc_upt mi1_def mi2_def set_cell_def)
  have c2: "cells mi2 = cells m2"
    using Cons.prems(5) by (simp add: mi2_def mi1_def m2 m1 eqa eqb)
  have i2: "index m2 = ul" "columns m2 = ul"
    using Cons.prems(1,2) by (simp_all add: m2 m1)
  have j2: "index mi2 = [0..<length ul]" "columns mi2 = [0..<length ul]"
    using Cons.prems(3,4) by (simp_all add: mi2_def mi1_def)
  from Cons.IH [OF i2 j2 c2 f] obtain mi' where
    r: "fill_index_matrix iti mi2 items = Inr mi'"
    and rest: "index mi' = [0..<length ul]" "columns mi' = [0..<length ul]" "cells mi' = cells m'"
    by (elim exE conjE)
  have "fill_index_matrix iti mi (it # items) = Inr mi'"
    using r t1 t2 pa pb by (simp add: it assms)
  with rest show ?case
    by (intro exI [of _ mi'] conjI)
qed

lemma unique_links_set: "set (unique_links a) = set (keys (links a))"
  by (simp add: unique_links_def)

lemma unique_links_distinct: "distinct (keys (links a)) \<Longrightarrow> distinct (unique_links a)"
  by (simp add: unique_links_def)

text \<open>
  The matrices of an analyzer whose distance table mentions loaded links only: no error
  is raised, both matrices are labelled in the order of \<^const>\<open>unique_links\<close>, every
  cell of the identifier-indexed matrix holds the last value written into it, or 0, and
  the index-indexed matrix has the same cells.
\<close>

lemma create_distance_matrices_result:
  assumes "distinct (keys (links a))"
    and "list_all (\<lambda>((x, y), d). x \<in> set (keys (links a)) \<and> y \<in> set (keys (links a)))
           (distances a)"
  shows "\<exists>index_matrix id_matrix.
           create_distance_matrices a = Inr (index_matrix, id_matrix)
           \<and> index id_matrix = unique_links a \<and> columns id_matrix = unique_links a
           \<and> index index_matrix = [0..<length (unique_links a)]
           \<and> columns index_matrix = [0..<length (unique_links a)]
           \<and> cells index_matrix = cells id_matrix
           \<and> wf_frame id_matrix
           \<and> (\<forall>r c. r \<in> set (keys (links a)) \<and> c \<in> set (keys (links a))
                 \<longrightarrow> at_get id_matrix r c = Some (cell_value (distances a) r c))"
proof -
  define ul where "ul = unique_links a"
  define m0 where "m0 = DataFrame 0 ul ul"
  define mi0 where "mi0 = DataFrame 0 [0..<length ul] [0..<length ul]"
  have dul: "distinct ul"
    unfolding ul_def using assms(1) by (rule unique_links_distinct)
  have sul: "set ul = set (keys (links a))"
    by (simp add: ul_def unique_links_set)
  have w0: "wf_frame m0"
    unfolding m0_def using dul dul by (rule wf_DataFrame)
  have l0: "index m0 = ul" "columns m0 = ul"
    by (simp_all add: m0_def DataFrame_def)
  have ok: "list_all (\<lambda>((a, b), d). a \<in> set (index m0) \<and> b \<in> set (index m0)
                          \<and> a \<in> set (columns m0) \<and> b \<in> set (columns m0)) (distances a)"
    using assms(2) by (simp add: l0 sul list_all_iff case_prod_beta)
  from fill_id_matrix_result [OF w0 ok] obtain idm where
    f: "fill_id_matrix m0 (distances a) = Inr idm" and w: "wf_frame idm"
    and l: "index idm = index m0" "columns idm = columns m0"
    and g: "\<forall>r c. at_get idm r c
              = (case last_write (distances a) r c of None \<Rightarrow> at_get m0 r c | Some (k, d) \<Rightarrow> Some d)"
    by (elim exE conjE)
  have li0: "index mi0 = [0..<length ul]" "columns mi0 = [0..<length ul]"
    by (simp_all add: mi0_def DataFrame_def)
  have c0: "cells mi0 = cells m0"
    by (simp add: mi0_def m0_def DataFrame_def)
  have lk: "map_of (make_id_to_index ul) l = get_loc ul l" for l
    using dul by (rule make_id_to_index_lookup)
  from fill_index_matrix_parallel [of "make_id_to_index ul" ul, OF lk l0 li0 c0 f]
  obtain ixm where
    fi: "fill_index_matrix (make_id_to_index ul) mi0 (distances a) = Inr ixm"
    and li: "index ixm = [0..<length ul]" "columns ixm = [0..<length ul]"
    and ci: "cells ixm = cells idm"
    by (elim exE conjE)
  have res: "create_distance_matrices a = Inr (ixm, idm)"
    using f fi by (simp add: create_distance_matrices_def Let_def ul_def [symmetric]
        m0_def [symmetric] mi0_def [symmetric])
  have cellv: "at_get idm r c = Some (cell_value (distances a) r c)"
    if "r \<in> set (keys (links a)) \<and> c \<in> set (keys (links a))" for r c
  proof -
    from that have "at_get m0 r c = Some 0"
      unfolding m0_def by (intro at_get_DataFrame) (simp_all add: sul)
    with g show ?thesis
      by (simp add: cell_value_def split: option.split)
  qed
  have "\<forall>r c. r \<in> set (keys (links a)) \<and> c \<in> set (keys (links a))
                 \<longrightarrow> at_get idm r c = Some (cell_value (distances a) r c)"
    using cellv by (intro allI impI)
  with res l li ci w show ?thesis
    unfolding l0 ul_def [symmetric] by (intro exI [of _ ixm] exI [of _ idm] conjI)
qed

section \<open>The distance matrices of the analysis\<close>

lemma all_distances_keys:
  "set (keys (all_distances ls)) \<subseteq> set (permutations2 (keys ls))"
  by (auto simp: all_distances_alt keys_def)

lemma all_distances_loaded:
  assumes "distinct (keys ls)"
  shows "list_all (\<lambda>((x, y), d). x \<in> set (keys ls) \<and> y \<in> set (keys ls)) (all_distances ls)"
  unfolding list_all_iff
proof
  fix it
  assume "it \<in> set (all_distances ls)"
  then have "fst it \<in> set (keys (all_distances ls))"
    by (simp add: keys_def)
  with all_distances_keys have "fst it \<in> set (permutations2 (keys ls))"
    by blast
  then have "fst (fst it) \<in> set (keys ls) \<and> snd (fst it) \<in> set (keys ls)"
    by (auto simp: set_permutations2 [OF assms])
  then show "case it of (x, xa) \<Rightarrow> (case x of (x, y) \<Rightarrow> \<lambda>d. x \<in> set (keys ls) \<and> y \<in> set (keys ls)) xa"
    by (simp add: case_prod_beta)
qed







section \<open>Direction of the search and the order of the writes\<close>

lemma permutations2_triangle: "permutations2 (keys triangle_links) =
  [(''S'', ''R1''), (''S'', ''R2''), (''S'', ''T''), (''R1'', ''S''), (''R1'', ''R2''), (''R1'', ''T''),
   (''R2'', ''S''), (''R2'', ''R1''), (''R2'', ''T''), (''T'', ''S''), (''T'', ''R1''), (''T'', ''R2'')]"
  by (simp add: permutations2_def keys_def triangle_links_def upt_rec)

lemma all_paths_triangle: "all_paths triangle_links =
   [((''S'', ''R1''), [[''S'', ''R1''], [''S'', ''R2'', ''R1'']]),
    ((''S'', ''R2''), [[''S'', ''R2''], [''S'', ''R1'', ''R2'']]),
    ((''S'', ''T''), [[''S'', ''R1'', ''T'']]),
    ((''R1'', ''S''), [[''R1'', ''S''], [''R1'', ''R2'', ''S'']]),
    ((''R1'', ''R2''), [[''R1'', ''R2''], [''R1'', ''S'', ''R2'']]),
    ((''R1'', ''T''), [[''R1'', ''T'']]),
    ((''R2'', ''S''), [[''R2'', ''S''], [''R2'', ''R1'', ''S'']]),
    ((''R2'', ''R1''), [[''R2'', ''R1''], [''R2'', ''S'', ''R1'']]),
    ((''R2'', ''T''), [[''R2'', ''T'']]),
    ((''T'', ''S''), [[''T'', ''R1'', ''S''], [''T'', ''R2'', ''S'']]),
    ((''T'', ''R1''), [[''T'', ''R1''], [''T'', ''R2'', ''S'', ''R1'']]),
    ((''T'', ''R2''), [[''T'', ''R2''], [''T'', ''R1'', ''S'', ''R2'']])]"
  unfolding all_paths_def permutations2_triangle found_paths_def build_graph_triangle
  by (simp add: bfs_paths_def triangle_links_def bfs_start_def graph_get_list_def)

lemma all_distances_triangle: "all_distances triangle_links =
   [((''S'', ''R1''), 55), ((''S'', ''R2''), 11 / 2), ((''S'', ''T''), 110),
    ((''R1'', ''S''), 55), ((''R1'', ''R2''), 101 / 2), ((''R1'', ''T''), 55),
    ((''R2'', ''S''), 11 / 2), ((''R2'', ''R1''), 101 / 2), ((''R2'', ''T''), 11 / 2),
    ((''T'', ''S''), 11), ((''T'', ''R1''), 55), ((''T'', ''R2''), 11 / 2)]"
  unfolding all_distances_def all_paths_triangle
  by (simp add: shortest_def distance_of_def compute_path_distance_def triangle_links_def)

lemma less_token_simps [simp]:
  "Num a < Num b \<longleftrightarrow> a < b"
  "Str s < Str t \<longleftrightarrow> s < t"
  "Num a < Str t"
  "\<not> Str s < Num b"
  by (auto simp: less_token_def)

lemmas natural_key_simps =
  natural_key_def isdigit_def is_digit_def lower_def lower_char_def int_of_digits_def
  digit_value_def

lemma keys_all_paths: "keys (all_paths ls) = permutations2 (keys ls)"
  by (simp add: all_paths_def keys_def comp_def)

lemma keys_all_distances:
  "keys (all_distances ls)
     = filter (\<lambda>pr. map_of (all_paths ls) pr \<noteq> Some []) (keys (all_paths ls))"
proof -
  have "keys (all_distances ls)
          = filter (\<lambda>pr. found_paths ls pr \<noteq> []) (permutations2 (keys ls))"
    by (simp add: all_distances_alt keys_def comp_def)
  also have "\<dots> = filter (\<lambda>pr. map_of (all_paths ls) pr \<noteq> Some []) (permutations2 (keys ls))"
    by (intro filter_cong refl) (simp add: map_of_all_paths)
  finally show ?thesis
    by (simp add: keys_all_paths)
qed

lemma triangle_matrices:
  "create_distance_matrices
     \<lparr>links = triangle_links, paths = all_paths triangle_links,
      distances = all_distances triangle_links, link_indices = []\<rparr>
   = Inr (\<lparr>index = [0, 1, 2, 3], columns = [0, 1, 2, 3],
           cells = [[0, 101 / 2, 55, 55], [101 / 2, 0, 11 / 2, 11 / 2],
                    [55, 11 / 2, 0, 11], [55, 11 / 2, 11, 0]]\<rparr>,
          \<lparr>index = [''R1'', ''R2'', ''S'', ''T''], columns = [''R1'', ''R2'', ''S'', ''T''],
           cells = [[0, 101 / 2, 55, 55], [101 / 2, 0, 11 / 2, 11 / 2],
                    [55, 11 / 2, 0, 11], [55, 11 / 2, 11, 0]]\<rparr>)"
proof -
  have ul: "unique_links \<lparr>links = triangle_links, paths = all_paths triangle_links,
      distances = all_distances triangle_links, link_indices = []\<rparr> = [''R1'', ''R2'', ''S'', ''T'']"
    by (simp add: unique_links_def keys_def triangle_links_def natural_key_simps)
  have iti: "make_id_to_index [''R1'', ''R2'', ''S'', ''T'']
               = [(''R1'', 0), (''R2'', 1), (''S'', 2), (''T'', 3)]"
    by (simp add: make_id_to_index_def enumerate_eq_zip upt_rec)
  show ?thesis
    unfolding create_distance_matrices_def ul Let_def iti
    by (simp add: all_distances_triangle DataFrame_def at_set_def upt_rec)
qed

text \<open>
  Claim C10.  The two directions of a pair of links need not have the same minimum
  distance: in the triangle network the distance table has 110 for \<open>(S, T)\<close> and 11 for
  \<open>(T, S)\<close>, and both cells of the two links hold 11, the value of \<open>(T, S)\<close>, which is
  written later.  In general, for links with ASCII identifiers, the distance table keeps
  the order of the path set, and the cells \<open>[a, b]\<close> and \<open>[b, a]\<close> of the matrix both
  hold the value of the last entry of the table whose pair is \<open>(a, b)\<close> or \<open>(b, a)\<close>.
\<close>

theorem last_write_wins:
  "(\<exists>an index_matrix id_matrix.
      analyze triangle_links = Inr an
      \<and> create_distance_matrices an = Inr (index_matrix, id_matrix)
      \<and> map_of (distances an) (''S'', ''T'') = Some 110
      \<and> map_of (distances an) (''T'', ''S'') = Some 11
      \<and> get_loc (keys (paths an)) (''S'', ''T'') = Some 2
      \<and> get_loc (keys (paths an)) (''T'', ''S'') = Some 9
      \<and> at_get id_matrix ''S'' ''T'' = Some 11 \<and> at_get id_matrix ''T'' ''S'' = Some 11
      \<and> at_get index_matrix 2 3 = Some 11 \<and> at_get index_matrix 3 2 = Some 11)
   \<and> (links_ok ls \<and> ascii_links ls \<longrightarrow>
        (\<exists>an index_matrix id_matrix.
           analyze ls = Inr an
           \<and> create_distance_matrices an = Inr (index_matrix, id_matrix)
           \<and> keys (distances an)
               = filter (\<lambda>pr. map_of (paths an) pr \<noteq> Some []) (keys (paths an))
           \<and> (\<forall>a \<in> set (keys ls). \<forall>b \<in> set (keys ls).
                 at_get id_matrix a b = Some (cell_value (distances an) a b)
                 \<and> at_get id_matrix b a = Some (cell_value (distances an) a b))))"
proof (intro conjI impI)
  let ?an = "\<lparr>links = triangle_links, paths = all_paths triangle_links,
              distances = all_distances triangle_links, link_indices = []\<rparr>"
  have ok: "links_ok triangle_links"
    by (simp add: links_ok_def keys_def triangle_links_def)
  have an: "analyze triangle_links = Inr ?an"
    using ok by (rule analyze_result)
  have d1: "map_of (distances ?an) (''S'', ''T'') = Some 110"
    and d2: "map_of (distances ?an) (''T'', ''S'') = Some 11"
    by (simp_all add: all_distances_triangle)
  have p1: "get_loc (keys (paths ?an)) (''S'', ''T'') = Some 2"
    and p2: "get_loc (keys (paths ?an)) (''T'', ''S'') = Some 9"
    by (simp_all add: keys_all_paths permutations2_triangle)
  let ?ixm = "\<lparr>index = [0, 1, 2, 3], columns = [0, 1, 2, 3],
           cells = [[0, 101 / 2, 55, 55], [101 / 2, 0, 11 / 2, 11 / 2],
                    [55, 11 / 2, 0, 11], [55, 11 / 2, 11, 0 :: real]]\<rparr> :: nat frame"
  let ?idm = "\<lparr>index = [''R1'', ''R2'', ''S'', ''T''], columns = [''R1'', ''R2'', ''S'', ''T''],
           cells = [[0, 101 / 2, 55, 55], [101 / 2, 0, 11 / 2, 11 / 2],
                    [55, 11 / 2, 0, 11], [55, 11 / 2, 11, 0 :: real]]\<rparr>"
  have m: "create_distance_matrices ?an = Inr (?ixm, ?idm)"
    by (rule triangle_matrices)
  have c: "at_get ?idm ''S'' ''T'' = Some 11" "at_get ?idm ''T'' ''S'' = Some 11"
    "at_get ?ixm 2 3 = Some 11" "at_get ?ixm 3 2 = Some 11"
    by (simp_all add: at_get_def)
  from an m d1 d2 p1 p2 c
  show "\<exists>an index_matrix id_matrix.
      analyze triangle_links = Inr an
      \<and> create_distance_matrices an = Inr (index_matrix, id_matrix)
      \<and> map_of (distances an) (''S'', ''T'') = Some 110
      \<and> map_of (distances an) (''T'', ''S'') = Some 11
      \<and> get_loc (keys (paths an)) (''S'', ''T'') = Some 2
      \<and> get_loc (keys (paths an)) (''T'', ''S'') = Some 9
      \<and> at_get id_matrix ''S'' ''T'' = Some 11 \<and> at_get id_matrix ''T'' ''S'' = Some 11
      \<and> at_get index_matrix 2 3 = Some 11 \<and> at_get index_matrix 3 2 = Some 11"
    by (intro exI [of _ ?an] exI [of _ ?ixm] exI [of _ ?idm] conjI)
next
  assume "links_ok ls \<and> ascii_links ls"
  then have ok: "links_ok ls" ..
  define an where
    "an = \<lparr>links = ls, paths = all_paths ls, distances = all_distances ls, link_indices = []\<rparr>"
  from ok have dk: "distinct (keys ls)"
    by (simp add: links_ok_def)
  have an: "analyze ls = Inr an"
    unfolding an_def using ok by (rule analyze_result)
  have la: "links an = ls" and da: "distances an = all_distances ls"
    and pa: "paths an = all_paths ls"
    by (simp_all add: an_def)
  have 1: "distinct (keys (links an))"
    using dk by (simp add: la)
  have 2: "list_all (\<lambda>((x, y), d). x \<in> set (keys (links an)) \<and> y \<in> set (keys (links an)))
             (distances an)"
    using all_distances_loaded [OF dk] by (simp add: la da)
  from create_distance_matrices_result [OF 1 2] obtain ixm idm where
    res: "create_distance_matrices an = Inr (ixm, idm)"
    and cell: "\<forall>r c. r \<in> set (keys (links an)) \<and> c \<in> set (keys (links an))
                 \<longrightarrow> at_get idm r c = Some (cell_value (distances an) r c)"
    by (elim exE conjE)
  have k: "keys (distances an)
             = filter (\<lambda>pr. map_of (paths an) pr \<noteq> Some []) (keys (paths an))"
    by (simp only: da pa keys_all_distances)
  have both: "at_get idm a b = Some (cell_value (distances an) a b)
               \<and> at_get idm b a = Some (cell_value (distances an) a b)"
    if "a \<in> set (keys ls)" and "b \<in> set (keys ls)" for a b
    using cell that cell_value_sym [of "distances an" a b] by (simp add: la)
  have B: "\<forall>a \<in> set (keys ls). \<forall>b \<in> set (keys ls).
             at_get idm a b = Some (cell_value (distances an) a b)
             \<and> at_get idm b a = Some (cell_value (distances an) a b)"
    by (intro ballI both)
  from an res k B
  show "\<exists>an index_matrix id_matrix.
           analyze ls = Inr an
           \<and> create_distance_matrices an = Inr (index_matrix, id_matrix)
           \<and> keys (distances an)
               = filter (\<lambda>pr. map_of (paths an) pr \<noteq> Some []) (keys (paths an))
           \<and> (\<forall>a \<in> set (keys ls). \<forall>b \<in> set (keys ls).
                 at_get id_matrix a b = Some (cell_value (distances an) a b)
                 \<and> at_get id_matrix b a = Some (cell_value (distances an) a b))"
    by (intro exI [of _ an] exI [of _ ixm] exI [of _ idm] conjI)
qed

theorem last_write_wins_witness:
  "links_ok triangle_links \<and> ascii_links triangle_links
   \<and> (\<exists>an index_matrix id_matrix.
           analyze triangle_links = Inr an
           \<and> create_distance_matrices an = Inr (index_matrix, id_matrix)
           \<and> keys (distances an)
               = filter (\<lambda>pr. map_of (paths an) pr \<noteq> Some []) (keys (paths an))
           \<and> (\<forall>a \<in> set (keys triangle_links). \<forall>b \<in> set (keys triangle_links).
                 at_get id_matrix a b = Some (cell_value (distances an) a b)
                 \<and> at_get id_matrix b a = Some (cell_value (distances an) a b)))"
proof -
  have 1: "links_ok triangle_links"
    by (simp add: links_ok_def keys_def triangle_links_def)
  have 2: "ascii_links triangle_links"
    by (simp add: ascii_links_def ascii_id_def keys_def triangle_links_def)
  from last_write_wins [of triangle_links] have h:
    "links_ok triangle_links \<and> ascii_links triangle_links \<longrightarrow>
        (\<exists>an index_matrix id_matrix.
           analyze triangle_links = Inr an
           \<and> create_distance_matrices an = Inr (index_matrix, id_matrix)
           \<and> keys (distances an)
               = filter (\<lambda>pr. map_of (paths an) pr \<noteq> Some []) (keys (paths an))
           \<and> (\<forall>a \<in> set (keys triangle_links). \<forall>b \<in> set (keys triangle_links).
                 at_get id_matrix a b = Some (cell_value (distances an) a b)
                 \<and> at_get id_matrix b a = Some (cell_value (distances an) a b)))"
    by (rule conjunct2)
  from 1 2 mp [OF h conjI [OF 1 2]] show ?thesis
    by (intro conjI)
qed

section \<open>The order of the labels\<close>

lemma takeWhile_not_digit: "list_all (\<lambda>c. \<not> is_digit c) (takeWhile (\<lambda>c. \<not> is_digit c) x)"
  by (induction x) simp_all

lemma takeWhile_digit: "list_all is_digit (takeWhile is_digit x)"
  by (induction x) simp_all

lemma takeWhile_digit_nonempty: "x \<noteq> [] \<Longrightarrow> is_digit (hd x) \<Longrightarrow> takeWhile is_digit x \<noteq> []"
  by (cases x) simp_all

lemma re_split_digits_runs:
  "alternating (re_split_digits x) \<and> concat (re_split_digits x) = x"
proof (induction x rule: re_split_digits.induct)
  case (1 x)
  define pre where "pre = takeWhile (\<lambda>c. \<not> is_digit c) x"
  define rest where "rest = dropWhile (\<lambda>c. \<not> is_digit c) x"
  have x: "x = pre @ rest"
    by (simp add: pre_def rest_def)
  have p: "list_all (\<lambda>c. \<not> is_digit c) pre"
    unfolding pre_def by (rule takeWhile_not_digit)
  show ?case
  proof (cases "rest = []")
    case True
    then have r: "re_split_digits x = [pre]"
      by (subst re_split_digits.simps) (simp add: pre_def rest_def)
    have "alternating [pre] \<and> concat [pre] = x"
      using p x True by simp
    then show ?thesis
      by (simp only: r)
  next
    case False
    then have r: "re_split_digits x
                    = pre # takeWhile is_digit rest # re_split_digits (dropWhile is_digit rest)"
      by (subst re_split_digits.simps) (simp add: pre_def rest_def Let_def)
    from False have "is_digit (hd rest)"
      unfolding rest_def using hd_dropWhile [of "\<lambda>c. \<not> is_digit c" x] by simp
    with False have ne: "takeWhile is_digit rest \<noteq> []"
      by (rule takeWhile_digit_nonempty)
    from "1.IH" [OF pre_def rest_def False]
    have ih: "alternating (re_split_digits (dropWhile is_digit rest))"
      "concat (re_split_digits (dropWhile is_digit rest)) = dropWhile is_digit rest"
      by (rule conjunct1, rule conjunct2)
    have "concat (re_split_digits x) = pre @ takeWhile is_digit rest @ dropWhile is_digit rest"
      by (simp only: r concat.simps ih(2))
    then have c: "concat (re_split_digits x) = x"
      by (simp only: takeWhile_dropWhile_id x [symmetric])
    have "alternating (pre # takeWhile is_digit rest # re_split_digits (dropWhile is_digit rest))"
      using p ne takeWhile_digit [of rest] ih(1) by (simp only: alternating.simps simp_thms)
    then have "alternating (re_split_digits x)"
      by (simp only: r)
    then show ?thesis using c ..
  qed
qed

lemma not_isdigit_run: "list_all (\<lambda>c. \<not> is_digit c) t \<Longrightarrow> \<not> isdigit t"
  by (cases t) (simp_all add: isdigit_def)

lemma isdigit_run: "d \<noteq> [] \<Longrightarrow> list_all is_digit d \<Longrightarrow> isdigit d"
  by (simp add: isdigit_def)

lemma key_of_alternating:
  "alternating runs \<Longrightarrow>
   map (\<lambda>t. if isdigit t then Num (int_of_digits t) else Str (lower t)) runs = key_of_runs runs"
  by (induction runs rule: alternating.induct) (simp_all add: not_isdigit_run isdigit_run)

lemma natural_key_runs: "natural_key x = key_of_runs (re_split_digits x)"
  unfolding natural_key_def using re_split_digits_runs [of x] by (intro key_of_alternating) (rule conjunct1)

text \<open>
  The integers of a key stand at the odd positions and the strings at the even ones, so
  two keys never compare an integer with a string.
\<close>

lemma key_of_runs_kinds:
  "alternating runs \<Longrightarrow> i < length (key_of_runs runs) \<Longrightarrow>
   (case key_of_runs runs ! i of Num n \<Rightarrow> odd i | Str s \<Rightarrow> even i)"
proof (induction runs arbitrary: i rule: alternating.induct)
  case 1
  then show ?case by simp
next
  case (2 t)
  then show ?case by simp
next
  case (3 t d runs)
  show ?case
  proof (cases i)
    case 0
    then show ?thesis by simp
  next
    case (Suc j)
    show ?thesis
    proof (cases j)
      case 0
      with Suc show ?thesis by simp
    next
      case (Suc k)
      with \<open>i = Suc j\<close> "3.prems" have "k < length (key_of_runs runs)" and "alternating runs"
        by simp_all
      from "3.IH" [OF this(2,1)] Suc \<open>i = Suc j\<close> show ?thesis
        by (simp split: token.splits)
    qed
  qed
qed

lemma fill_id_matrix_labels:
  "fill_id_matrix m items = Inr m' \<Longrightarrow> index m' = index m \<and> columns m' = columns m"
proof (induction items arbitrary: m)
  case Nil
  then show ?case by simp
next
  case (Cons it items)
  obtain a b d where it: "it = ((a, b), d)" by (cases it) auto
  from Cons.prems obtain m1 where s1: "at_set m a b d = Inr m1"
    by (cases "at_set m a b d") (simp_all add: it)
  with Cons.prems obtain m2 where s2: "at_set m1 b a d = Inr m2"
    by (cases "at_set m1 b a d") (simp_all add: it)
  from Cons.prems s1 s2 have f: "fill_id_matrix m2 items = Inr m'"
    by (simp add: it)
  from at_set_InrD [OF s1] have "index m1 = index m \<and> columns m1 = columns m"
    by auto
  moreover from at_set_InrD [OF s2] have "index m2 = index m1 \<and> columns m2 = columns m1"
    by auto
  ultimately show ?case
    using Cons.IH [OF f] by simp
qed

lemma create_distance_matrices_labels:
  assumes "create_distance_matrices a = Inr (index_matrix, id_matrix)"
  shows "index id_matrix = unique_links a" and "columns id_matrix = unique_links a"
proof -
  from assms obtain m where f: "fill_id_matrix (DataFrame 0 (unique_links a) (unique_links a))
                                  (distances a) = Inr m"
    by (cases "fill_id_matrix (DataFrame 0 (unique_links a) (unique_links a)) (distances a)")
      (simp_all add: create_distance_matrices_def Let_def)
  with assms have "id_matrix = m"
    by (simp add: create_distance_matrices_def Let_def split: sum.splits)
  with fill_id_matrix_labels [OF f]
  show "index id_matrix = unique_links a" and "columns id_matrix = unique_links a"
    by (simp_all add: DataFrame_def)
qed

lemma numbered_links_sorted:
  "sort_key natural_key [''L10'', ''L2'', ''L1''] = [''L1'', ''L2'', ''L10'']"
  by (simp add: natural_key_simps)

lemma numbered_links_matrices:
  "\<exists>an index_matrix id_matrix.
     analyze numbered_links = Inr an
     \<and> create_distance_matrices an = Inr (index_matrix, id_matrix)
     \<and> index id_matrix = [''L1'', ''L2'', ''L10'']
     \<and> columns id_matrix = [''L1'', ''L2'', ''L10'']"
proof -
  define an where
    "an = \<lparr>links = numbered_links, paths = all_paths numbered_links,
            distances = all_distances numbered_links, link_indices = []\<rparr>"
  have ok: "links_ok numbered_links"
    by (simp add: links_ok_def keys_def numbered_links_def)
  then have dk: "distinct (keys numbered_links)"
    by (simp add: links_ok_def)
  have an: "analyze numbered_links = Inr an"
    unfolding an_def using ok by (rule analyze_result)
  have la: "links an = numbered_links" and da: "distances an = all_distances numbered_links"
    by (simp_all add: an_def)
  have 1: "distinct (keys (links an))"
    using dk by (simp add: la)
  have 2: "list_all (\<lambda>((x, y), d). x \<in> set (keys (links an)) \<and> y \<in> set (keys (links an)))
             (distances an)"
    using all_distances_loaded [OF dk] by (simp add: la da)
  have ul: "unique_links an = [''L1'', ''L2'', ''L10'']"
    using numbered_links_sorted by (simp add: unique_links_def la keys_def numbered_links_def)
  from create_distance_matrices_result [OF 1 2] obtain ixm idm where
    res: "create_distance_matrices an = Inr (ixm, idm)"
    and li: "index idm = unique_links an" "columns idm = unique_links an"
    by (elim exE conjE)
  from an res li show ?thesis
    unfolding ul by (intro exI [of _ an] exI [of _ ixm] exI [of _ idm] conjI)
qed

text \<open>
  Claim C7.  For links with ASCII identifiers, the rows and the columns of the
  identifier-indexed matrix are the
  identifiers of the links, sorted by the natural sort key: the identifier is split into
  alternating runs of non-digits and digits (the runs put together give the identifier
  back), a run of digits counts by its number and a run of non-digits by its text in
  lower case, and keys are compared run by run.  The identifiers \<open>L10\<close>, \<open>L2\<close>, \<open>L1\<close> label
  the matrix in the order \<open>L1\<close>, \<open>L2\<close>, \<open>L10\<close>, where the order of the strings would give
  \<open>L1\<close>, \<open>L10\<close>, \<open>L2\<close>.
\<close>

theorem natural_sort_order:
  "(create_distance_matrices a = Inr (index_matrix, id_matrix) \<and> ascii_links (links a) \<longrightarrow>
      index id_matrix = sort_key natural_key (keys (links a))
      \<and> columns id_matrix = index id_matrix
      \<and> sorted (map natural_key (index id_matrix))
      \<and> set (index id_matrix) = set (keys (links a))
      \<and> length (index id_matrix) = length (keys (links a)))
   \<and> (ascii_id x \<longrightarrow>
        natural_key x = key_of_runs (re_split_digits x)
        \<and> alternating (re_split_digits x) \<and> concat (re_split_digits x) = x)
   \<and> natural_key ''L10'' = [Str ''l'', Num 10, Str []]
   \<and> natural_key ''l2'' < natural_key ''L10''
   \<and> sort_key natural_key [''L1'', ''L10'', ''L2''] = [''L1'', ''L2'', ''L10'']
   \<and> sort [''L1'', ''L2'', ''L10''] = [''L1'', ''L10'', ''L2'']
   \<and> (\<exists>an index_matrix id_matrix.
         analyze numbered_links = Inr an
         \<and> create_distance_matrices an = Inr (index_matrix, id_matrix)
         \<and> index id_matrix = [''L1'', ''L2'', ''L10'']
         \<and> columns id_matrix = [''L1'', ''L2'', ''L10''])"
proof (intro conjI impI)
  assume "create_distance_matrices a = Inr (index_matrix, id_matrix) \<and> ascii_links (links a)"
  then have r: "create_distance_matrices a = Inr (index_matrix, id_matrix)" ..
  from create_distance_matrices_labels [OF r]
  have i: "index id_matrix = unique_links a" and c: "columns id_matrix = unique_links a"
    by simp_all
  show "index id_matrix = sort_key natural_key (keys (links a))"
    using i by (simp add: unique_links_def)
  show "columns id_matrix = index id_matrix"
    using i c by simp
  show "sorted (map natural_key (index id_matrix))"
    using i by (simp add: unique_links_def)
  show "set (index id_matrix) = set (keys (links a))"
    using i by (simp add: unique_links_def)
  show "length (index id_matrix) = length (keys (links a))"
    using i by (simp add: unique_links_def)
next
  show "natural_key x = key_of_runs (re_split_digits x)"
    by (rule natural_key_runs)
  show "alternating (re_split_digits x)"
    using re_split_digits_runs [of x] by (rule conjunct1)
  show "concat (re_split_digits x) = x"
    using re_split_digits_runs [of x] by (rule conjunct2)
next
  show "natural_key ''L10'' = [Str ''l'', Num 10, Str []]"
    by (simp add: natural_key_simps)
  show "natural_key ''l2'' < natural_key ''L10''"
    by (simp add: natural_key_simps)
  show "sort_key natural_key [''L1'', ''L10'', ''L2''] = [''L1'', ''L2'', ''L10'']"
    by (simp add: natural_key_simps)
  show "sort [''L1'', ''L2'', ''L10''] = [''L1'', ''L10'', ''L2'']"
    by simp
  show "\<exists>an index_matrix id_matrix.
         analyze numbered_links = Inr an
         \<and> create_distance_matrices an = Inr (index_matrix, id_matrix)
         \<and> index id_matrix = [''L1'', ''L2'', ''L10'']
         \<and> columns id_matrix = [''L1'', ''L2'', ''L10'']"
    by (rule numbered_links_matrices)
qed

theorem natural_sort_order_witness:
  "create_distance_matrices (new_analyzer\<lparr>links := numbered_links\<rparr>)
     = Inr (DataFrame 0 [0, 1, 2] [0, 1, 2],
            DataFrame 0 [''L1'', ''L2'', ''L10''] [''L1'', ''L2'', ''L10''])
   \<and> ascii_links (links (new_analyzer\<lparr>links := numbered_links\<rparr>))
   \<and> index (DataFrame 0 [''L1'', ''L2'', ''L10''] [''L1'', ''L2'', ''L10''])
       = sort_key natural_key (keys (links (new_analyzer\<lparr>links := numbered_links\<rparr>)))
   \<and> sorted (map natural_key (index (DataFrame 0 [''L1'', ''L2'', ''L10''] [''L1'', ''L2'', ''L10''])))
   \<and> ascii_id ''L10''
   \<and> natural_key ''L10'' = key_of_runs (re_split_digits ''L10'')
   \<and> alternating (re_split_digits ''L10'')"
proof -
  let ?a = "new_analyzer\<lparr>links := numbered_links\<rparr>"
  let ?ixm = "DataFrame 0 [0, 1, 2] [0, 1, 2] :: nat frame"
  let ?idm = "DataFrame 0 [''L1'', ''L2'', ''L10''] [''L1'', ''L2'', ''L10'']"
  have a1: "ascii_links (links ?a)"
    by (simp add: ascii_links_def ascii_id_def keys_def numbered_links_def new_analyzer_def)
  have a2: "ascii_id ''L10''"
    by (simp add: ascii_id_def)
  have ul: "unique_links (new_analyzer\<lparr>links := numbered_links\<rparr>) = [''L1'', ''L2'', ''L10'']"
    using numbered_links_sorted by (simp add: unique_links_def keys_def numbered_links_def)
  have r: "create_distance_matrices (new_analyzer\<lparr>links := numbered_links\<rparr>)
     = Inr (DataFrame 0 [0, 1, 2] [0, 1, 2],
            DataFrame 0 [''L1'', ''L2'', ''L10''] [''L1'', ''L2'', ''L10''])"
    unfolding create_distance_matrices_def ul Let_def
    by (simp add: new_analyzer_def upt_rec numeral_2_eq_2)
  note t = natural_sort_order [of ?a ?ixm ?idm "''L10''"]
  from t have "create_distance_matrices ?a = Inr (?ixm, ?idm) \<and> ascii_links (links ?a) \<longrightarrow>
      index ?idm = sort_key natural_key (keys (links ?a))
      \<and> columns ?idm = index ?idm
      \<and> sorted (map natural_key (index ?idm))
      \<and> set (index ?idm) = set (keys (links ?a))
      \<and> length (index ?idm) = length (keys (links ?a))"
    by (rule conjunct1)
  note c = mp [OF this conjI [OF r a1]]
  have i: "index ?idm = sort_key natural_key (keys (links ?a))"
    using c by (rule conjunct1)
  have s: "sorted (map natural_key (index ?idm))"
    using c by (rule conjunct1 [OF conjunct2 [OF conjunct2]])
  from t have "ascii_id ''L10'' \<longrightarrow>
        natural_key ''L10'' = key_of_runs (re_split_digits ''L10'')
        \<and> alternating (re_split_digits ''L10'')
        \<and> concat (re_split_digits ''L10'') = ''L10''"
    by (rule conjunct1 [OF conjunct2])
  note d = mp [OF this a2]
  have k: "natural_key ''L10'' = key_of_runs (re_split_digits ''L10'')"
    using d by (rule conjunct1)
  have al: "alternating (re_split_digits ''L10'')"
    using d by (rule conjunct1 [OF conjunct2])
  from r a1 i s a2 k al show ?thesis
    by (intro conjI)
qed

section \<open>The empty network\<close>

text \<open>
  Claim C8.  With no link loaded nothing fails: loading leaves the analyzer as it is,
  the path set and the distance table stay empty, and \<^verbatim>\<open>create_distance_matrices\<close>
  returns two matrices without rows and columns.
\<close>

theorem empty_network:
  "load_network new_analyzer [] = new_analyzer
   \<and> links new_analyzer = []
   \<and> find_all_paths new_analyzer = Inr new_analyzer
   \<and> compute_shortest_distances new_analyzer = Inr new_analyzer
   \<and> analyze [] = Inr new_analyzer
   \<and> paths new_analyzer = [] \<and> distances new_analyzer = []
   \<and> create_distance_matrices new_analyzer
       = Inr (\<lparr>index = [], columns = [], cells = []\<rparr>, \<lparr>index = [], columns = [], cells = []\<rparr>)"
proof (intro conjI)
  show "load_network new_analyzer [] = new_analyzer"
    by (simp add: load_network_def)
  show "links new_analyzer = []" "paths new_analyzer = []" "distances new_analyzer = []"
    by (simp_all add: new_analyzer_def)
  show f: "find_all_paths new_analyzer = Inr new_analyzer"
    by (simp add: find_all_paths_def new_analyzer_def permutations2_def keys_def)
  show c: "compute_shortest_distances new_analyzer = Inr new_analyzer"
    by (simp add: compute_shortest_distances_def new_analyzer_def)
  have "new_analyzer\<lparr>links := []\<rparr> = new_analyzer"
    by (simp add: new_analyzer_def)
  with f c show "analyze [] = Inr new_analyzer"
    by (simp add: analyze_def)
  show "create_distance_matrices new_analyzer
       = Inr (\<lparr>index = [], columns = [], cells = []\<rparr>, \<lparr>index = [], columns = [], cells = []\<rparr>)"
    by (simp add: create_distance_matrices_def unique_links_def new_analyzer_def keys_def
        DataFrame_def make_id_to_index_def)
qed

section \<open>The paths file\<close>

lemma split_comma_free: "comma_free s \<Longrightarrow> split_comma s = [s]"
  by (induction s) (auto simp: comma_free_def)

lemma split_comma_append:
  "comma_free a \<Longrightarrow> split_comma (a @ CHR '','' # b) = a # split_comma b"
  by (induction a) (auto simp: comma_free_def)

lemma split_comma_file_key:
  "comma_free (fst key) \<Longrightarrow> comma_free (snd key) \<Longrightarrow> split_comma (file_key key) = pair_tuple key"
  by (simp add: file_key_def pair_tuple_def split_comma_append split_comma_free)

lemma foldl_update_fresh:
  "distinct (map (\<lambda>kv. f (fst kv)) kvs) \<Longrightarrow>
   (\<And>kv. kv \<in> set kvs \<Longrightarrow> f (fst kv) \<notin> set (keys d0)) \<Longrightarrow>
   foldl (\<lambda>d (k, v). AList.update (f k) v d) d0 kvs = d0 @ map (\<lambda>(k, v). (f k, v)) kvs"
proof (induction kvs arbitrary: d0)
  case Nil
  show ?case by simp
next
  case (Cons kv kvs)
  obtain k v where kv: "kv = (k, v)" by (cases kv)
  have fresh: "f k \<notin> set (keys d0)"
    using Cons.prems(2) [of kv] by (simp add: kv)
  have u: "AList.update (f k) v d0 = d0 @ [(f k, v)]"
    using fresh by (rule update_fresh)
  have d: "distinct (map (\<lambda>kv. f (fst kv)) kvs)"
    using Cons.prems(1) by simp
  have n: "f (fst kv') \<notin> set (keys (d0 @ [(f k, v)]))" if "kv' \<in> set kvs" for kv'
  proof -
    from that Cons.prems(1) have "f (fst kv') \<noteq> f k"
      by (force simp: kv)
    moreover from that have "f (fst kv') \<notin> set (keys d0)"
      using Cons.prems(2) [of kv'] by simp
    ultimately show ?thesis
      by (simp add: keys_def)
  qed
  have "foldl (\<lambda>d (k, v). AList.update (f k) v d) (d0 @ [(f k, v)]) kvs
          = (d0 @ [(f k, v)]) @ map (\<lambda>(k, v). (f k, v)) kvs"
    using d n by (rule Cons.IH)
  then show ?case
    by (simp add: kv u)
qed

lemma save_paths_eq: "save_paths a = foldl (\<lambda>d (k, v). AList.update (file_key k) v d) [] (paths a)"
  by (simp add: save_paths_def file_key_def)

lemma paths_round_trip_comma_free:
  assumes "distinct (keys (paths a))"
    and "list_all (\<lambda>(key, v). comma_free (fst key) \<and> comma_free (snd key)) (paths a)"
  shows "load_paths (save_paths a) = map (\<lambda>(key, v). (pair_tuple key, v)) (paths a)"
proof -
  have cf: "comma_free (fst (fst kv)) \<and> comma_free (snd (fst kv))" if "kv \<in> set (paths a)" for kv
    using assms(2) that by (auto simp: list_all_iff)
  have sk: "split_comma (file_key (fst kv)) = pair_tuple (fst kv)" if "kv \<in> set (paths a)" for kv
    using cf [OF that] by (simp add: split_comma_file_key)
  have inj_pt: "inj pair_tuple"
    by (auto simp: inj_on_def pair_tuple_def prod_eq_iff)
  have d2: "distinct (map (\<lambda>kv. pair_tuple (fst kv)) (paths a))"
  proof -
    have "distinct (map pair_tuple (keys (paths a)))"
      using assms(1) inj_on_subset [OF inj_pt subset_UNIV] by (simp add: distinct_map)
    then show ?thesis
      by (simp add: keys_def comp_def)
  qed
  have d1: "distinct (map (\<lambda>kv. file_key (fst kv)) (paths a))"
  proof -
    have e: "map (\<lambda>kv. split_comma (file_key (fst kv))) (paths a)
            = map (\<lambda>kv. pair_tuple (fst kv)) (paths a)"
      by (intro map_cong refl sk)
    have "map split_comma (map (\<lambda>kv. file_key (fst kv)) (paths a))
            = map (\<lambda>kv. split_comma (file_key (fst kv))) (paths a)"
      by (simp add: comp_def)
    with d2 e have "distinct (map split_comma (map (\<lambda>kv. file_key (fst kv)) (paths a)))"
      by (simp only:)
    then show ?thesis
      by (rule conjunct1 [OF iffD1 [OF distinct_map]])
  qed
  have s: "save_paths a = map (\<lambda>(k, v). (file_key k, v)) (paths a)"
    unfolding save_paths_eq using foldl_update_fresh [of file_key "paths a" "[]", OF d1]
    by (simp add: keys_def)
  let ?file = "map (\<lambda>(k, v). (file_key k, v)) (paths a)"
  have d3: "distinct (map (\<lambda>kv. split_comma (fst kv)) ?file)"
  proof -
    have "map (\<lambda>kv. split_comma (fst kv)) ?file
            = map (\<lambda>kv. split_comma (file_key (fst kv))) (paths a)"
      by (simp add: comp_def case_prod_beta)
    also have "\<dots> = map (\<lambda>kv. pair_tuple (fst kv)) (paths a)"
      by (intro map_cong refl sk)
    finally have "map (\<lambda>kv. split_comma (fst kv)) ?file
                    = map (\<lambda>kv. pair_tuple (fst kv)) (paths a)" .
    with d2 show ?thesis
      by (simp only:)
  qed
  have "load_paths ?file = map (\<lambda>(k, v). (split_comma k, v)) ?file"
    unfolding load_paths_def using foldl_update_fresh [of split_comma ?file "[]", OF d3]
    by (simp add: keys_def)
  also have "\<dots> = map (\<lambda>kv. (split_comma (file_key (fst kv)), snd kv)) (paths a)"
    by (simp add: comp_def case_prod_beta)
  also have "\<dots> = map (\<lambda>kv. (pair_tuple (fst kv), snd kv)) (paths a)"
    by (intro map_cong refl) (simp add: sk)
  finally show ?thesis
    by (simp add: s case_prod_beta)
qed

lemma all_paths_comma_links:
  "all_paths comma_links
     = [((''P,1'', ''P2''), [[''P,1'', ''P2'']]), ((''P2'', ''P,1''), [[''P2'', ''P,1'']])]"
proof -
  have g: "build_graph comma_links
             = [(''n1'', [(''n2'', ''P,1'')]), (''n2'', [(''n1'', ''P,1''), (''n3'', ''P2'')]),
                (''n3'', [(''n2'', ''P2'')])]"
    by (simp add: build_graph_def comma_links_def dict_values_def graph_append_def keys_def
        graph_get_list_def)
  have p: "permutations2 (keys comma_links) = [(''P,1'', ''P2''), (''P2'', ''P,1'')]"
    by (simp add: permutations2_def keys_def comma_links_def upt_rec)
  show ?thesis
    unfolding all_paths_def p found_paths_def g
    by (simp add: bfs_paths_def comma_links_def bfs_start_def graph_get_list_def)
qed

text \<open>
  Claim C9.  Writing a path set to the paths file and reading the file back gives the
  same pairs with the same paths.  The code does so for identifiers without a comma
  (\<open>paths_round_trip_comma_free\<close>).  For the path set of the network above it does
  not: the key \<open>P,1,P2\<close> of the pair \<open>(P,1, P2)\<close> is read back as the tuple of the three
  strings \<open>P\<close>, \<open>1\<close> and \<open>P2\<close>.
\<close>

theorem paths_round_trip_comma:
  "\<exists>an. analyze comma_links = Inr an
      \<and> paths an = [((''P,1'', ''P2''), [[''P,1'', ''P2'']]), ((''P2'', ''P,1''), [[''P2'', ''P,1'']])]
      \<and> save_paths an = [(''P,1,P2'', [[''P,1'', ''P2'']]), (''P2,P,1'', [[''P2'', ''P,1'']])]
      \<and> load_paths (save_paths an)
          = [([''P'', ''1'', ''P2''], [[''P,1'', ''P2'']]), ([''P2'', ''P'', ''1''], [[''P2'', ''P,1'']])]
      \<and> load_paths (save_paths an) \<noteq> map (\<lambda>(key, v). (pair_tuple key, v)) (paths an)"
proof -
  define an where
    "an = \<lparr>links = comma_links, paths = all_paths comma_links,
            distances = all_distances comma_links, link_indices = []\<rparr>"
  have ok: "links_ok comma_links"
    by (simp add: links_ok_def keys_def comma_links_def)
  have an: "analyze comma_links = Inr an"
    unfolding an_def using ok by (rule analyze_result)
  have p: "paths an
             = [((''P,1'', ''P2''), [[''P,1'', ''P2'']]), ((''P2'', ''P,1''), [[''P2'', ''P,1'']])]"
    by (simp add: an_def all_paths_comma_links)
  have s: "save_paths an = [(''P,1,P2'', [[''P,1'', ''P2'']]), (''P2,P,1'', [[''P2'', ''P,1'']])]"
    by (simp add: save_paths_def p)
  have l: "load_paths (save_paths an)
          = [([''P'', ''1'', ''P2''], [[''P,1'', ''P2'']]), ([''P2'', ''P'', ''1''], [[''P2'', ''P,1'']])]"
    by (simp add: load_paths_def s)
  have n: "load_paths (save_paths an) \<noteq> map (\<lambda>(key, v). (pair_tuple key, v)) (paths an)"
    by (simp add: l p pair_tuple_def)
  from an p s l n show ?thesis
    by (intro exI [of _ an] conjI)
qed

end
